theory Spec2Isabelle
  imports Main "HOL-Library.Log_Nat"
begin

section \<open>Text: code points, lower-casing and the two regular expressions\<close>

text \<open>
  A Python \<^verbatim>\<open>str\<close> is a sequence of Unicode code points, so a text is a list of
  natural numbers and an ASCII literal of the source is written \<open>ascii ''pdf''\<close>.
\<close>

type_synonym str = "nat list"

definition ascii :: "string \<Rightarrow> str" where
  "ascii s = map of_char s"

text \<open>
  The part of the Unicode database that the source reaches through \<^verbatim>\<open>str.lower\<close> and
  the class \<^verbatim>\<open>\w\<close>, for code points above 127 that are not white space. It is a
  parameter of the development: \<open>to_lower_full\<close> is the lower-case mapping of one code
  point between the text before it and the text after it (Python lowers a capital sigma
  by its context, and one code point may become several), \<open>is_alnum\<close> is
  \<^verbatim>\<open>str.isalnum\<close> on one code point.
\<close>

record unicode_db =
  to_lower_full :: "str \<Rightarrow> nat \<Rightarrow> str \<Rightarrow> str"
  is_alnum :: "nat \<Rightarrow> bool"

text \<open>
  White space as \<^verbatim>\<open>\s\<close> and \<^verbatim>\<open>str.isspace\<close> see it: U+0009..U+000D,
  U+001C..U+0020, U+0085, U+00A0, U+1680, U+2000..U+200A, U+2028, U+2029, U+202F, U+205F
  and U+3000. These code points are uncased and are not alphanumeric.
\<close>

definition is_space :: "nat \<Rightarrow> bool" where
  "is_space c \<longleftrightarrow>
     (9 \<le> c \<and> c \<le> 13) \<or> (28 \<le> c \<and> c \<le> 32) \<or> c = 133 \<or> c = 160 \<or> c = 5760 \<or>
     (8192 \<le> c \<and> c \<le> 8202) \<or> c = 8232 \<or> c = 8233 \<or> c = 8239 \<or> c = 8287 \<or>
     c = 12288"

definition is_lower_az :: "nat \<Rightarrow> bool" where
  "is_lower_az c \<longleftrightarrow> 97 \<le> c \<and> c \<le> 122"

definition is_upper_az :: "nat \<Rightarrow> bool" where
  "is_upper_az c \<longleftrightarrow> 65 \<le> c \<and> c \<le> 90"

definition is_digit09 :: "nat \<Rightarrow> bool" where
  "is_digit09 c \<longleftrightarrow> 48 \<le> c \<and> c \<le> 57"

text \<open>\<^verbatim>\<open>str.lower\<close> on the code point \<open>c\<close> standing between \<open>pre\<close> and \<open>post\<close>.\<close>

definition lower_char :: "unicode_db \<Rightarrow> str \<Rightarrow> nat \<Rightarrow> str \<Rightarrow> str" where
  "lower_char U pre c post =
     (if is_upper_az c then [c + 32]
      else if c < 128 \<or> is_space c then [c]
      else to_lower_full U pre c post)"

fun lower_from :: "unicode_db \<Rightarrow> str \<Rightarrow> str \<Rightarrow> str" where
  "lower_from U pre [] = []"
| "lower_from U pre (c # cs) = lower_char U pre c cs @ lower_from U (pre @ [c]) cs"

definition lower :: "unicode_db \<Rightarrow> str \<Rightarrow> str" where
  "lower U text = lower_from U [] text"

text \<open>The character class \<^verbatim>\<open>[a-z0-9\s]\<close>, whose complement \<open>clean_text\<close> blanks.\<close>

definition in_az09_space :: "nat \<Rightarrow> bool" where
  "in_az09_space c \<longleftrightarrow> is_lower_az c \<or> is_digit09 c \<or> is_space c"

text \<open>\<^verbatim>\<open>re.sub(r"[^a-z0-9\s]", " ", text)\<close>: one space for each code point outside the class.\<close>

definition re_sub_non_az09_space :: "str \<Rightarrow> str" where
  "re_sub_non_az09_space text = map (\<lambda>c. if in_az09_space c then c else 32) text"

definition clean_text :: "unicode_db \<Rightarrow> str \<Rightarrow> str" where
  "clean_text U text = re_sub_non_az09_space (lower U text)"

text \<open>The class \<^verbatim>\<open>\w\<close> of a \<^verbatim>\<open>str\<close> pattern: alphanumeric, or the underscore.\<close>

definition is_word :: "unicode_db \<Rightarrow> nat \<Rightarrow> bool" where
  "is_word U c \<longleftrightarrow>
     (if c < 128 then is_lower_az c \<or> is_upper_az c \<or> is_digit09 c \<or> c = 95
      else \<not> is_space c \<and> is_alnum U c)"

text \<open>
  \<^verbatim>\<open>re.findall(r'\b\w+\b', s)\<close>, scanning from the left. \<open>prev\<close> tells whether the code
  point before the scanning position is a word character. A match starts where
  \<^verbatim>\<open>\b\<close> holds in front of a word character, that is after a non-word character or
  at the start; \<^verbatim>\<open>\w+\<close> is greedy and takes the whole run, behind which \<^verbatim>\<open>\b\<close>
  holds again, and the scan goes on behind the match.
\<close>

function re_findall_words :: "unicode_db \<Rightarrow> bool \<Rightarrow> str \<Rightarrow> str list" where
  "re_findall_words U prev [] = []"
| "re_findall_words U prev (c # cs) =
     (if is_word U c \<and> \<not> prev
      then (c # takeWhile (is_word U) cs) # re_findall_words U True (dropWhile (is_word U) cs)
      else re_findall_words U (is_word U c) cs)"
  by pat_completeness auto
termination
  by (relation "measure (\<lambda>(U, prev, s). length s)")
     (auto simp: length_dropWhile_le less_Suc_eq_le)

section \<open>Keyword extraction\<close>

definition stopwords :: "str set" where
  "stopwords = set (map ascii [''and'', ''or'', ''the'', ''a'', ''an'', ''in'', ''on'',
     ''with'', ''for'', ''to'', ''of'', ''is'', ''are''])"

definition keyword_tokens :: "unicode_db \<Rightarrow> str \<Rightarrow> str list" where
  "keyword_tokens U text =
     filter (\<lambda>w. w \<notin> stopwords) (re_findall_words U False (clean_text U text))"

definition extract_keywords :: "unicode_db \<Rightarrow> str \<Rightarrow> str set" where
  "extract_keywords U text = set (keyword_tokens U text)"

text \<open>A token matches \<^verbatim>\<open>^[a-z0-9]+$\<close> and holds no line break.\<close>

definition matches_az09_plus :: "str \<Rightarrow> bool" where
  "matches_az09_plus w \<longleftrightarrow> w \<noteq> [] \<and> list_all (\<lambda>c. is_lower_az c \<or> is_digit09 c) w"

section \<open>Exceptions\<close>

text \<open>
  What a call can raise: the division by zero of Python's arithmetic, and an instance of
  \<^verbatim>\<open>Exception\<close> raised inside a library (PyMuPDF, docx2txt) with its message.
\<close>

datatype exn = ZeroDivisionError | Exception str

section \<open>Python's float arithmetic\<close>

text \<open>
  A finite \<^verbatim>\<open>float\<close> is a rational number with a 53-bit significand. \<open>fl64\<close> rounds
  a rational to the nearest such number, ties to the even significand, as IEEE 754
  binary64 does; \<open>binade x\<close> is the exponent \<open>e\<close> with \<open>2^e \<le> x < 2^(e+1)\<close>. The exponent
  range is left unbounded: the quotient of two lengths and its product with 100 stay far
  inside the range of normal numbers.
\<close>

definition binade :: "rat \<Rightarrow> int" where
  "binade x =
     (let (p, q) = quotient_of x; e = bitlen p - bitlen q
      in if 2 powi e \<le> x then e else e - 1)"

definition round_half_even :: "rat \<Rightarrow> int" where
  "round_half_even r =
     (let f = \<lfloor>r\<rfloor>; d = r - of_int f
      in if d < 1 / 2 then f
         else if 1 / 2 < d then f + 1
         else if even f then f else f + 1)"

definition fl64 :: "rat \<Rightarrow> rat" where
  "fl64 x =
     (if x = 0 then 0
      else let u = 2 powi (binade \<bar>x\<bar> - 52)
           in sgn x * of_int (round_half_even (\<bar>x\<bar> / u)) * u)"

text \<open>\<^verbatim>\<open>a / b\<close> on two lengths: the correctly rounded quotient, or the error.\<close>

definition int_truediv :: "nat \<Rightarrow> nat \<Rightarrow> exn + rat" where
  "int_truediv a b = (if b = 0 then Inl ZeroDivisionError else Inr (fl64 (of_nat a / of_nat b)))"

text \<open>\<^verbatim>\<open>x * 100\<close> on a float: the integer becomes 100.0, the product is rounded.\<close>

definition float_mul :: "rat \<Rightarrow> rat \<Rightarrow> rat" where
  "float_mul x y = fl64 (x * y)"

text \<open>\<^verbatim>\<open>int(x)\<close> on a float truncates toward zero.\<close>

definition py_int :: "rat \<Rightarrow> int" where
  "py_int x = (if 0 \<le> x then \<lfloor>x\<rfloor> else \<lceil>x\<rceil>)"

section \<open>Synonyms and their cache\<close>

text \<open>
  The lexical database is a parameter: \<open>W word\<close> lists the synsets of \<open>word\<close>, each as
  the list of its lemma names (\<^verbatim>\<open>wordnet.synsets\<close>, \<^verbatim>\<open>lemmas\<close>, \<^verbatim>\<open>name\<close>).
\<close>

type_synonym wordnet = "str \<Rightarrow> str list list"

text \<open>\<^verbatim>\<open>name.replace("_", " ")\<close>\<close>

definition replace_underscore :: "str \<Rightarrow> str" where
  "replace_underscore s = map (\<lambda>c. if c = 95 then 32 else c) s"

fun lemmas_loop :: "unicode_db \<Rightarrow> str set \<Rightarrow> str list \<Rightarrow> str set" where
  "lemmas_loop U syns [] = syns"
| "lemmas_loop U syns (l # ls) = lemmas_loop U (insert (lower U (replace_underscore l)) syns) ls"

fun synsets_loop :: "unicode_db \<Rightarrow> str set \<Rightarrow> str list list \<Rightarrow> str set" where
  "synsets_loop U syns [] = syns"
| "synsets_loop U syns (syn # rest) = synsets_loop U (lemmas_loop U syns syn) rest"

text \<open>The body of \<open>get_synonyms\<close>, which the decorator wraps.\<close>

definition get_synonyms_body :: "wordnet \<Rightarrow> unicode_db \<Rightarrow> str \<Rightarrow> str set" where
  "get_synonyms_body W U word = synsets_loop U {} (W word)"

text \<open>
  \<^verbatim>\<open>functools.lru_cache(maxsize=500)\<close>: the entries with the most recently used first,
  and the two counters of \<^verbatim>\<open>cache_info()\<close>. \<open>misses\<close> counts the calls of the wrapped
  body, that is the queries of the lexical database.
\<close>

record lru_cache =
  entries :: "(str \<times> str set) list"
  hits :: nat
  misses :: nat

definition maxsize :: nat where
  "maxsize = 500"

definition empty_cache :: lru_cache where
  "empty_cache = \<lparr>entries = [], hits = 0, misses = 0\<rparr>"

definition cached_keys :: "lru_cache \<Rightarrow> str set" where
  "cached_keys c = fst ` set (entries c)"

text \<open>
  A hit moves the entry to the front and returns its stored result. A miss calls the
  body, drops the least recently used entry when the cache is full, and puts the new
  entry at the front.
\<close>

definition lru_call :: "(str \<Rightarrow> str set) \<Rightarrow> lru_cache \<Rightarrow> str \<Rightarrow> str set \<times> lru_cache" where
  "lru_call f c key =
     (case map_of (entries c) key of
        Some result \<Rightarrow>
          (result, c\<lparr>entries := (key, result) # filter (\<lambda>e. fst e \<noteq> key) (entries c),
                      hits := hits c + 1\<rparr>)
      | None \<Rightarrow>
          (let result = f key;
               kept = (if maxsize \<le> length (entries c) then butlast (entries c) else entries c)
           in (result, c\<lparr>entries := (key, result) # kept, misses := misses c + 1\<rparr>)))"

definition get_synonyms :: "wordnet \<Rightarrow> unicode_db \<Rightarrow> lru_cache \<Rightarrow> str \<Rightarrow> str set \<times> lru_cache" where
  "get_synonyms W U c word = lru_call (get_synonyms_body W U) c word"

text \<open>The calls \<open>get_synonyms(w)\<close> for the words of a list, one after the other.\<close>

definition get_synonyms_each :: "wordnet \<Rightarrow> unicode_db \<Rightarrow> lru_cache \<Rightarrow> str list \<Rightarrow> lru_cache" where
  "get_synonyms_each W U c ws = fold (\<lambda>w c. snd (get_synonyms W U c w)) ws c"

text \<open>Every entry holds what the body returns for its key, and no key is stored twice.\<close>

definition cache_ok :: "wordnet \<Rightarrow> unicode_db \<Rightarrow> lru_cache \<Rightarrow> bool" where
  "cache_ok W U c \<longleftrightarrow>
     distinct (map fst (entries c)) \<and> length (entries c) \<le> maxsize \<and>
     list_all (\<lambda>e. snd e = get_synonyms_body W U (fst e)) (entries c)"

section \<open>The score\<close>

definition priority :: "str set" where
  "priority = set (map ascii [''python'', ''java'', ''sql'', ''aws'', ''react'', ''node'',
     ''mongodb'', ''docker''])"

text \<open>
  The loop over \<open>jd_kw\<close>, given as the list of its members in the order the iteration
  visits them, with the cache, \<open>matches\<close> and \<open>missing\<close> as its state.
\<close>

fun match_loop ::
  "wordnet \<Rightarrow> unicode_db \<Rightarrow> str set \<Rightarrow> lru_cache \<times> str set \<times> str set \<Rightarrow> str list \<Rightarrow>
   lru_cache \<times> str set \<times> str set" where
  "match_loop W U resume_kw (c, matches, missing) [] = (c, matches, missing)"
| "match_loop W U resume_kw (c, matches, missing) (word # rest) =
     (if word \<in> resume_kw
      then match_loop W U resume_kw (c, insert word matches, missing) rest
      else (case get_synonyms W U c word of (syns, c') \<Rightarrow>
        if syns \<inter> resume_kw \<noteq> {}
        then match_loop W U resume_kw (c', insert word matches, missing) rest
        else match_loop W U resume_kw (c', matches, insert word missing) rest))"

text \<open>
  \<^verbatim>\<open>int((len(matches) / len(jd_kw)) * 100) if jd_kw else 0\<close>, on the two lengths and
  the truth value of \<open>jd_kw\<close>.
\<close>

definition ats_score :: "nat \<Rightarrow> nat \<Rightarrow> bool \<Rightarrow> exn + int" where
  "ats_score n_matches n_jd jd_nonempty =
     (if jd_nonempty
      then (case int_truediv n_matches n_jd of
              Inl e \<Rightarrow> Inl e
            | Inr q \<Rightarrow> Inr (py_int (float_mul q 100)))
      else Inr 0)"

text \<open>
  \<open>calculate_ats\<close> over a given iteration order of \<open>jd_kw\<close>. It returns the tuple of the
  source and the cache as the calls left it.
\<close>

definition calculate_ats_in_order ::
  "wordnet \<Rightarrow> unicode_db \<Rightarrow> lru_cache \<Rightarrow> str set \<Rightarrow> str set \<Rightarrow> str list \<Rightarrow>
   exn + ((int \<times> int \<times> str set \<times> str set) \<times> lru_cache)" where
  "calculate_ats_in_order W U c resume_kw jd_kw order =
     (case match_loop W U resume_kw (c, {}, {}) order of (c', matches, missing) \<Rightarrow>
        (case ats_score (card matches) (card jd_kw) (jd_kw \<noteq> {}) of
           Inl e \<Rightarrow> Inl e
         | Inr ats \<Rightarrow>
             Inr ((ats, min (ats + int (card (matches \<inter> priority)) * 2) 100, matches, missing),
                  c')))"

text \<open>
  Python does not fix the order in which a set is iterated. The model visits the keywords
  in the order of their first occurrence in the text; \<open>match_loop\<close> is shown below to
  yield the same two sets for every order.
\<close>

definition calculate_ats ::
  "wordnet \<Rightarrow> unicode_db \<Rightarrow> lru_cache \<Rightarrow> str \<Rightarrow> str \<Rightarrow>
   exn + ((int \<times> int \<times> str set \<times> str set) \<times> lru_cache)" where
  "calculate_ats W U c resume_text jd_text =
     calculate_ats_in_order W U c (extract_keywords U resume_text) (extract_keywords U jd_text)
       (remdups (keyword_tokens U jd_text))"

section \<open>Uploaded files and the document libraries\<close>

text \<open>
  An uploaded file is a named byte stream with a read position. \<open>seek\<close> and \<open>read\<close> are
  those of \<^verbatim>\<open>io.BytesIO\<close>: \<open>read\<close> returns the bytes from the position to the end and
  leaves the position at the end.
\<close>

record upload =
  name :: str
  content :: "nat list"
  pos :: nat

definition seek :: "upload \<Rightarrow> nat \<Rightarrow> upload" where
  "seek file n = file\<lparr>pos := n\<rparr>"

definition read :: "upload \<Rightarrow> nat list \<times> upload" where
  "read file =
     (drop (pos file) (content file), file\<lparr>pos := max (pos file) (length (content file))\<rparr>)"

type_synonym rect = "rat \<times> rat \<times> rat \<times> rat"

text \<open>
  PyMuPDF and docx2txt are parameters. Each call returns its value or raises.
  \<open>docx2txt_process\<close> reads the stream it is given and also returns the position where it
  leaves it; \<open>add_highlight_annot\<close> returns the page with the annotation;
  \<open>get_text_words\<close> is \<^verbatim>\<open>page.get_text("words")\<close>, the first five components of
  each item.
\<close>

record 'page pdf_lib =
  fitz_open :: "nat list \<Rightarrow> exn + 'page list"
  page_get_text :: "'page \<Rightarrow> exn + str"
  docx2txt_process :: "nat list \<Rightarrow> (exn + str) \<times> nat"
  search_for :: "'page \<Rightarrow> str \<Rightarrow> exn + rect list"
  add_highlight_annot :: "'page \<Rightarrow> rect \<Rightarrow> exn + 'page"
  get_text_words :: "'page \<Rightarrow> exn + (rat \<times> rat \<times> rat \<times> rat \<times> str) list"
  pdf_write :: "'page list \<Rightarrow> exn + nat list"

section \<open>Text extraction\<close>

text \<open>\<^verbatim>\<open>s.split(sep)\<close> for a separator of one code point; the result is never empty.\<close>

fun split_on :: "nat \<Rightarrow> str \<Rightarrow> str list" where
  "split_on sep [] = [[]]"
| "split_on sep (c # cs) =
     (if c = sep then [] # split_on sep cs
      else (case split_on sep cs of
              [] \<Rightarrow> [[c]]
            | seg # segs \<Rightarrow> (c # seg) # segs))"

text \<open>\<^verbatim>\<open>file.name.split(".")[-1].lower()\<close>\<close>

definition file_type_of :: "unicode_db \<Rightarrow> str \<Rightarrow> str" where
  "file_type_of U nm = lower U (last (split_on 46 nm))"

text \<open>The loop over the pages: \<^verbatim>\<open>text += page.get_text() + "\n"\<close>.\<close>

fun pages_text_loop :: "'page pdf_lib \<Rightarrow> str \<Rightarrow> 'page list \<Rightarrow> exn + str" where
  "pages_text_loop L text [] = Inr text"
| "pages_text_loop L text (page # rest) =
     (case page_get_text L page of
        Inl e \<Rightarrow> Inl e
      | Inr t \<Rightarrow> pages_text_loop L (text @ t @ [10]) rest)"

text \<open>
  \<open>get_text_from_file\<close> returns the text or the exception that left it, and the file
  object in the state the call leaves it in. \<open>None\<close> is the absent upload.
\<close>

definition get_text_from_file ::
  "'page pdf_lib \<Rightarrow> unicode_db \<Rightarrow> upload option \<Rightarrow> (exn + str) \<times> upload option" where
  "get_text_from_file L U file =
     (case file of
        None \<Rightarrow> (Inr [], None)
      | Some f \<Rightarrow>
          (let file_type = file_type_of U (name f);
               f0 = seek f 0
           in if file_type = ascii ''pdf''
              then (case read f0 of (bytes, f1) \<Rightarrow>
                (case fitz_open L bytes of
                   Inl e \<Rightarrow> (Inl e, Some f1)
                 | Inr pdf \<Rightarrow>
                     (case pages_text_loop L [] pdf of
                        Inl e \<Rightarrow> (Inl e, Some f1)
                      | Inr text \<Rightarrow> (Inr text, Some (seek f1 0)))))
              else if file_type = ascii ''docx''
              then (case docx2txt_process L (content f0) of
                      (Inl e, p) \<Rightarrow> (Inl e, Some (f0\<lparr>pos := p\<rparr>))
                    | (Inr text, p) \<Rightarrow> (Inr text, Some (seek (f0\<lparr>pos := p\<rparr>) 0)))
              else (Inr [], Some (seek f0 0))))"

section \<open>Highlighting\<close>

definition exn_str :: "exn \<Rightarrow> str" where
  "exn_str e = (case e of ZeroDivisionError \<Rightarrow> ascii ''division by zero'' | Exception m \<Rightarrow> m)"

text \<open>
  The two inner loops of the \<^verbatim>\<open>try\<close> block. An annotation changes the page, so a
  loop that raises returns the exception together with the page as it is at that moment.
\<close>

fun found_loop :: "'page pdf_lib \<Rightarrow> 'page \<Rightarrow> rect list \<Rightarrow> (exn \<times> 'page) + 'page" where
  "found_loop L page [] = Inr page"
| "found_loop L page (inst # rest) =
     (case add_highlight_annot L page inst of
        Inl e \<Rightarrow> Inl (e, page)
      | Inr page' \<Rightarrow> found_loop L page' rest)"

fun words_loop ::
  "'page pdf_lib \<Rightarrow> unicode_db \<Rightarrow> str \<Rightarrow> 'page \<Rightarrow> (rat \<times> rat \<times> rat \<times> rat \<times> str) list \<Rightarrow>
   (exn \<times> 'page) + 'page" where
  "words_loop L U kw page [] = Inr page"
| "words_loop L U kw page ((x0, y0, x1, y1, word) # rest) =
     (if lower U word = lower U kw
      then (case add_highlight_annot L page (x0, y0, x1, y1) of
              Inl e \<Rightarrow> Inl (e, page)
            | Inr page' \<Rightarrow> words_loop L U kw page' rest)
      else words_loop L U kw page rest)"

text \<open>The body of the \<^verbatim>\<open>try\<close> block for one keyword on one page.\<close>

definition try_body ::
  "'page pdf_lib \<Rightarrow> unicode_db \<Rightarrow> 'page \<Rightarrow> str \<Rightarrow> (exn \<times> 'page) + 'page" where
  "try_body L U page kw =
     (case search_for L page kw of
        Inl e \<Rightarrow> Inl (e, page)
      | Inr found \<Rightarrow>
          (case found_loop L page found of
             Inl ep \<Rightarrow> Inl ep
           | Inr page1 \<Rightarrow>
               (case get_text_words L page1 of
                  Inl e \<Rightarrow> Inl (e, page1)
                | Inr words \<Rightarrow> words_loop L U kw page1 words)))"

text \<open>
  The loop over the keywords on one page, with the \<^verbatim>\<open>except\<close> clause: it prints a
  line to the output \<open>out\<close> and the loop goes on.
\<close>

fun keywords_loop ::
  "'page pdf_lib \<Rightarrow> unicode_db \<Rightarrow> 'page \<times> str list \<Rightarrow> str list \<Rightarrow> 'page \<times> str list" where
  "keywords_loop L U (page, out) [] = (page, out)"
| "keywords_loop L U (page, out) (kw # rest) =
     (case try_body L U page kw of
        Inr page' \<Rightarrow> keywords_loop L U (page', out) rest
      | Inl (e, page') \<Rightarrow>
          keywords_loop L U
            (page', out @ [ascii ''Error highlighting '' @ kw @ ascii '': '' @ exn_str e]) rest)"

fun pages_loop ::
  "'page pdf_lib \<Rightarrow> unicode_db \<Rightarrow> str list \<Rightarrow> str list \<Rightarrow> 'page list \<Rightarrow> 'page list \<times> str list" where
  "pages_loop L U keywords out [] = ([], out)"
| "pages_loop L U keywords out (page # rest) =
     (case keywords_loop L U (page, out) keywords of (page', out') \<Rightarrow>
        (case pages_loop L U keywords out' rest of (rest', out'') \<Rightarrow>
           (page' # rest', out'')))"

text \<open>
  \<open>highlight_pdf_keywords\<close> returns the bytes or the exception that left it, the file
  object and the output. The keywords are given in the order the iteration visits them.
\<close>

definition highlight_pdf_keywords ::
  "'page pdf_lib \<Rightarrow> unicode_db \<Rightarrow> upload \<Rightarrow> str list \<Rightarrow> str list \<Rightarrow>
   (exn + nat list) \<times> upload \<times> str list" where
  "highlight_pdf_keywords L U file keywords out =
     (case read (seek file 0) of (bytes, file1) \<Rightarrow>
        (case fitz_open L bytes of
           Inl e \<Rightarrow> (Inl e, file1, out)
         | Inr pdf \<Rightarrow>
             (case pages_loop L U keywords out pdf of (pdf', out') \<Rightarrow>
                (case pdf_write L pdf' of
                   Inl e \<Rightarrow> (Inl e, file1, out')
                 | Inr pdf_bytes \<Rightarrow> (Inr pdf_bytes, file1, out')))))"

text \<open>The page as the \<^verbatim>\<open>try\<close> block leaves it, whether it raised or not.\<close>

definition page_after :: "(exn \<times> 'page) + 'page \<Rightarrow> 'page" where
  "page_after r = (case r of Inl (e, page) \<Rightarrow> page | Inr page \<Rightarrow> page)"

section \<open>Concrete parameters, for runs on concrete inputs\<close>

text \<open>A database without any entry above 127, for concrete runs on ASCII text.\<close>

definition ascii_db :: unicode_db where
  "ascii_db = \<lparr>to_lower_full = (\<lambda>pre c post. [c]), is_alnum = (\<lambda>c. False)\<rparr>"

text \<open>The \<open>n\<close> distinct words \<open>b\<close>, \<open>bb\<close>, \<open>bbb\<close> and so on.\<close>

definition many_words :: "nat \<Rightarrow> str list" where
  "many_words n = map (\<lambda>i. replicate (Suc i) 98) [0..<n]"

text \<open>
  The scenario of the specification, and the same keywords in other words and another
  order.
\<close>

definition resume_example :: str where
  "resume_example = ascii ''I know Python and SQL''"

definition jd_example :: str where
  "jd_example = ascii ''Python SQL AWS''"

definition resume_reworded :: str where
  "resume_reworded = ascii ''SQL, sql! I know, know PYTHON''"

definition jd_reworded :: str where
  "jd_reworded = ascii ''AWS python; SQL aws''"

text \<open>
  A resume and a job description of 29 and 50 distinct keywords, all 29 among the 50, with
  the keywords of each.
\<close>

definition resume_29 :: str where
  "resume_29 = ascii
     ''t01 t02 t03 t04 t05 t06 t07 t08 t09 t10 t11 t12 t13 t14 t15 t16 t17 t18 t19 t20 t21 t22 t23 t24 t25 t26 t27 t28 t29''"

definition jd_50 :: str where
  "jd_50 = ascii
     ''t01 t02 t03 t04 t05 t06 t07 t08 t09 t10 t11 t12 t13 t14 t15 t16 t17 t18 t19 t20 t21 t22 t23 t24 t25 t26 t27 t28 t29 t30 t31 t32 t33 t34 t35 t36 t37 t38 t39 t40 t41 t42 t43 t44 t45 t46 t47 t48 t49 t50''"

definition tokens_29 :: "str list" where
  "tokens_29 = map ascii
    [''t01'', ''t02'', ''t03'', ''t04'', ''t05'', ''t06'', ''t07'', ''t08'', ''t09'',
     ''t10'', ''t11'', ''t12'', ''t13'', ''t14'', ''t15'', ''t16'', ''t17'', ''t18'',
     ''t19'', ''t20'', ''t21'', ''t22'', ''t23'', ''t24'', ''t25'', ''t26'', ''t27'',
     ''t28'', ''t29'']"

definition tokens_50 :: "str list" where
  "tokens_50 = map ascii
    [''t01'', ''t02'', ''t03'', ''t04'', ''t05'', ''t06'', ''t07'', ''t08'', ''t09'',
     ''t10'', ''t11'', ''t12'', ''t13'', ''t14'', ''t15'', ''t16'', ''t17'', ''t18'',
     ''t19'', ''t20'', ''t21'', ''t22'', ''t23'', ''t24'', ''t25'', ''t26'', ''t27'',
     ''t28'', ''t29'', ''t30'', ''t31'', ''t32'', ''t33'', ''t34'', ''t35'', ''t36'',
     ''t37'', ''t38'', ''t39'', ''t40'', ''t41'', ''t42'', ''t43'', ''t44'', ''t45'',
     ''t46'', ''t47'', ''t48'', ''t49'', ''t50'']"

text \<open>A lexical database without any synset.\<close>

definition no_synsets :: wordnet where
  "no_synsets = (\<lambda>word. [])"

text \<open>A small lexical database: \<open>coding\<close> and \<open>programming\<close> share a synset.\<close>

definition small_wordnet :: wordnet where
  "small_wordnet =
     (\<lambda>word. if word = ascii ''coding'' \<or> word = ascii ''programming''
             then [[ascii ''Coding'', ascii ''programming'', ascii ''computer_programming'']]
             else [])"

text \<open>
  A stand-in for the document libraries. A page is its words and its annotations; every
  stream opens as the same two pages; looking up \<open>sql\<close> raises; the written bytes are
  the numbers of annotations of the pages.
\<close>

record page =
  page_words :: "(rat \<times> rat \<times> rat \<times> rat \<times> str) list"
  annots :: "rect list"

definition demo_pages :: "page list" where
  "demo_pages =
     [\<lparr>page_words = [(0, 0, 4, 1, ascii ''Python''), (5, 0, 8, 1, ascii ''SQL'')], annots = []\<rparr>,
      \<lparr>page_words = [(0, 0, 3, 1, ascii ''aws'')], annots = []\<rparr>]"

definition demo_lib :: "page pdf_lib" where
  "demo_lib =
     \<lparr>fitz_open = (\<lambda>bytes. if bytes = [] then Inl (Exception (ascii ''empty'')) else Inr demo_pages),
      page_get_text = (\<lambda>p. Inr (concat (map (\<lambda>(x0, y0, x1, y1, w). w @ [32]) (page_words p)))),
      docx2txt_process = (\<lambda>bytes. (Inr bytes, length bytes)),
      search_for = (\<lambda>p kw. if kw = ascii ''sql'' then Inl (Exception (ascii ''lookup''))
         else Inr (map (\<lambda>(x0, y0, x1, y1, w). (x0, y0, x1, y1))
                (filter (\<lambda>(x0, y0, x1, y1, w). w = kw) (page_words p)))),
      add_highlight_annot = (\<lambda>p r. Inr (p\<lparr>annots := annots p @ [r]\<rparr>)),
      get_text_words = (\<lambda>p. Inr (page_words p)),
      pdf_write = (\<lambda>pdf. Inr (map (\<lambda>p. length (annots p)) pdf))\<rparr>"

text \<open>An uploaded PDF file.\<close>

definition cv_pdf :: upload where
  "cv_pdf = \<lparr>name = ascii ''cv.pdf'', content = [37, 80, 68, 70], pos = 0\<rparr>"

section \<open>Properties of the normalizer and the keyword set\<close>

lemmas text_defs = extract_keywords_def keyword_tokens_def clean_text_def lower_def
  lower_char_def ascii_def re_sub_non_az09_space_def in_az09_space_def is_space_def
  is_lower_az_def is_upper_az_def is_digit09_def is_word_def stopwords_def ascii_db_def

lemma space_not_alnum:
  "is_space c \<Longrightarrow> \<not> is_upper_az c \<and> \<not> is_lower_az c \<and> \<not> is_digit09 c \<and> c \<noteq> 95"
  unfolding is_space_def is_upper_az_def is_lower_az_def is_digit09_def by arith

lemma lower_char_clean: "in_az09_space c \<Longrightarrow> lower_char U pre c post = [c]"
  unfolding in_az09_space_def
proof (elim disjE)
  assume "is_lower_az c"
  then show ?thesis by (simp add: lower_char_def is_lower_az_def is_upper_az_def)
next
  assume "is_digit09 c"
  then show ?thesis by (simp add: lower_char_def is_digit09_def is_upper_az_def)
next
  assume "is_space c"
  with space_not_alnum [of c] show ?thesis by (simp add: lower_char_def)
qed

lemma lower_from_clean: "list_all in_az09_space s \<Longrightarrow> lower_from U pre s = s"
  by (induction s arbitrary: pre) (auto simp: lower_char_clean)

lemma re_sub_is_clean: "list_all in_az09_space (re_sub_non_az09_space s)"
proof -
  have "in_az09_space 32" by (simp add: in_az09_space_def is_space_def)
  then show ?thesis by (auto simp: re_sub_non_az09_space_def list_all_iff)
qed

lemma re_sub_clean: "list_all in_az09_space s \<Longrightarrow> re_sub_non_az09_space s = s"
  by (auto simp: re_sub_non_az09_space_def list_all_iff intro: map_idI)

lemma clean_text_is_clean: "list_all in_az09_space (clean_text U t)"
  by (simp add: clean_text_def re_sub_is_clean)

lemma clean_text_idem: "clean_text U (clean_text U t) = clean_text U t"
  by (simp add: clean_text_def lower_def lower_from_clean re_sub_is_clean re_sub_clean)

lemma re_findall_words_members:
  "w \<in> set (re_findall_words U prev s) \<Longrightarrow> w \<noteq> [] \<and> list_all (is_word U) w \<and> set w \<subseteq> set s"
proof (induction U prev s rule: re_findall_words.induct)
  case (1 U prev)
  then show ?case by simp
next
  case (2 U prev c cs)
  show ?case
  proof (cases "is_word U c \<and> \<not> prev")
    case True
    with "2.prems" have "w = c # takeWhile (is_word U) cs \<or>
        w \<in> set (re_findall_words U True (dropWhile (is_word U) cs))"
      by simp
    then show ?thesis
    proof
      assume "w = c # takeWhile (is_word U) cs"
      with True show ?thesis
        by (auto simp: list_all_iff dest: set_takeWhileD)
    next
      assume "w \<in> set (re_findall_words U True (dropWhile (is_word U) cs))"
      from "2.IH"(1) [OF True this]
      have "w \<noteq> []" and "list_all (is_word U) w" and "set w \<subseteq> set (dropWhile (is_word U) cs)"
        by simp_all
      moreover have "set (dropWhile (is_word U) cs) \<subseteq> set cs"
        by (auto dest: set_dropWhileD)
      ultimately show ?thesis
        by auto
    qed
  next
    case False
    with "2.prems" have "w \<in> set (re_findall_words U (is_word U c) cs)"
      by simp
    from "2.IH"(2) [OF False this] show ?thesis
      by auto
  qed
qed

lemma word_of_clean: "in_az09_space c \<Longrightarrow> is_word U c \<Longrightarrow> is_lower_az c \<or> is_digit09 c"
  using space_not_alnum [of c] by (auto simp: in_az09_space_def is_word_def split: if_splits)

lemma keyword_tokens_members:
  assumes "w \<in> set (keyword_tokens U t)"
  shows "matches_az09_plus w" and "w \<notin> stopwords"
proof -
  from assms have tok: "w \<in> set (re_findall_words U False (clean_text U t))"
    and stop: "w \<notin> stopwords"
    by (simp_all add: keyword_tokens_def)
  from re_findall_words_members [OF tok]
  have ne: "w \<noteq> []" and wd: "list_all (is_word U) w" and sub: "set w \<subseteq> set (clean_text U t)"
    by simp_all
  have "is_lower_az c \<or> is_digit09 c" if "c \<in> set w" for c
  proof -
    from that sub clean_text_is_clean [of U t] have "in_az09_space c"
      by (auto simp: list_all_iff)
    moreover from that wd have "is_word U c"
      by (simp add: list_all_iff)
    ultimately show ?thesis
      by (rule word_of_clean)
  qed
  with ne show "matches_az09_plus w"
    by (simp add: matches_az09_plus_def list_all_iff)
  from stop show "w \<notin> stopwords" .
qed

text \<open>
  C7: every member of \<open>extract_keywords(t)\<close> matches \<^verbatim>\<open>^[a-z0-9]+$\<close> and is no stopword,
  whatever the text and whatever the Unicode database says above 127; the empty text has
  the empty keyword set. The function has no failing branch.
\<close>

theorem extract_keywords_members:
  "(\<forall>w \<in> extract_keywords U t. matches_az09_plus w \<and> w \<notin> stopwords) \<and>
   extract_keywords U [] = {}"
proof
  show "\<forall>w \<in> extract_keywords U t. matches_az09_plus w \<and> w \<notin> stopwords"
    by (auto simp: extract_keywords_def dest: keyword_tokens_members)
  show "extract_keywords U [] = {}"
    by (simp add: extract_keywords_def keyword_tokens_def clean_text_def lower_def
        re_sub_non_az09_space_def)
qed

theorem extract_keywords_members_witness:
  "ascii ''python'' \<in> extract_keywords ascii_db (ascii ''The Python, and SQL!'') \<and>
   matches_az09_plus (ascii ''python'') \<and> ascii ''python'' \<notin> stopwords \<and>
   extract_keywords ascii_db [] = {}"
proof -
  have k: "ascii ''python'' \<in> extract_keywords ascii_db (ascii ''The Python, and SQL!'')"
    by (simp add: text_defs)
  from extract_keywords_members [of ascii_db "ascii ''The Python, and SQL!''"] k
  show ?thesis
    by blast
qed

text \<open>
  C6: extracting the keywords of a normalized text gives the keywords of the text itself:
  \<open>extract_keywords(clean_text(t)) = extract_keywords(t)\<close> for every text.
\<close>

theorem extract_keywords_clean_text:
  "extract_keywords U (clean_text U t) = extract_keywords U t"
  by (simp add: extract_keywords_def keyword_tokens_def clean_text_idem)

theorem extract_keywords_clean_text_witness:
  "extract_keywords ascii_db (clean_text ascii_db (ascii ''The Python, and SQL!'')) =
     {ascii ''python'', ascii ''sql''}"
proof -
  have "extract_keywords ascii_db (ascii ''The Python, and SQL!'') =
      {ascii ''python'', ascii ''sql''}"
    by (simp add: text_defs)
  then show ?thesis
    by (simp only: extract_keywords_clean_text)
qed

section \<open>Properties of the text extractor\<close>

lemma get_text_from_file_other:
  "file_type_of U (name f) \<noteq> ascii ''pdf'' \<Longrightarrow> file_type_of U (name f) \<noteq> ascii ''docx'' \<Longrightarrow>
   get_text_from_file L U (Some f) = (Inr [], Some (f\<lparr>pos := 0\<rparr>))"
  by (simp add: get_text_from_file_def Let_def seek_def)

text \<open>
  C4, as the code has it: for a file whose extension (the text behind the last dot, in
  lower case) is neither \<open>pdf\<close> nor \<open>docx\<close>, \<open>get_text_from_file\<close> raises nothing. It
  returns the empty text and leaves the stream at position 0.
\<close>

theorem get_text_from_file_unsupported:
  "file_type_of U (name f) \<notin> {ascii ''pdf'', ascii ''docx''} \<Longrightarrow>
   get_text_from_file L U (Some f) = (Inr [], Some (f\<lparr>pos := 0\<rparr>))"
  by (simp add: get_text_from_file_other)

lemmas file_defs = file_type_of_def lower_def lower_char_def is_upper_az_def is_space_def ascii_def

lemma file_type_txt: "file_type_of ascii_db (ascii ''notes.txt'') = ascii ''txt''"
  by (simp add: file_defs)

lemma file_type_jpeg: "file_type_of ascii_db (ascii ''photo.JPEG'') = ascii ''jpeg''"
  by (simp add: file_defs)

lemma file_type_pdf: "file_type_of ascii_db (ascii ''cv.final.PDF'') = ascii ''pdf''"
  by (simp add: file_defs)

text \<open>
  The claim C4 as stated, that such a file makes the extractor fail, does not hold:
  \<open>notes.txt\<close> is read as the empty text.
\<close>

theorem get_text_from_file_txt_counterexample:
  "file_type_of ascii_db (ascii ''notes.txt'') = ascii ''txt'' \<and>
   get_text_from_file demo_lib ascii_db
     (Some \<lparr>name = ascii ''notes.txt'', content = [104, 105], pos = 0\<rparr>) =
   (Inr [], Some \<lparr>name = ascii ''notes.txt'', content = [104, 105], pos = 0\<rparr>)"
proof -
  have ne: "ascii ''txt'' \<noteq> ascii ''pdf''" "ascii ''txt'' \<noteq> ascii ''docx''"
    by (simp_all add: ascii_def)
  with get_text_from_file_other
    [of ascii_db "\<lparr>name = ascii ''notes.txt'', content = [104, 105], pos = 0\<rparr>" demo_lib]
  show ?thesis
    by (simp add: file_type_txt)
qed

theorem get_text_from_file_unsupported_witness:
  "file_type_of ascii_db (ascii ''photo.JPEG'') \<notin> {ascii ''pdf'', ascii ''docx''} \<and>
   get_text_from_file demo_lib ascii_db
     (Some \<lparr>name = ascii ''photo.JPEG'', content = [255, 216], pos = 2\<rparr>) =
   (Inr [], Some \<lparr>name = ascii ''photo.JPEG'', content = [255, 216], pos = 0\<rparr>)"
proof -
  have h: "file_type_of ascii_db (name \<lparr>name = ascii ''photo.JPEG'', content = [255, 216], pos = 2\<rparr>)
      \<notin> {ascii ''pdf'', ascii ''docx''}"
    by (simp add: file_type_jpeg) (simp add: ascii_def)
  from get_text_from_file_unsupported [OF h, of demo_lib] h show ?thesis
    by simp
qed

text \<open>
  C9: when \<open>get_text_from_file\<close> returns a text for an uploaded file, on the PDF path, the
  DOCX path or the path of any other extension, the stream is the caller's stream at
  position 0, with its name and content unchanged.
\<close>

theorem get_text_from_file_rewinds:
  "fst (get_text_from_file L U (Some f)) = Inr text \<Longrightarrow>
   snd (get_text_from_file L U (Some f)) = Some (f\<lparr>pos := 0\<rparr>)"
  by (auto simp: get_text_from_file_def Let_def seek_def read_def
      split: if_splits sum.splits prod.splits)

theorem get_text_from_file_rewinds_witness:
  "fst (get_text_from_file demo_lib ascii_db
     (Some \<lparr>name = ascii ''cv.final.PDF'', content = [37, 80, 68, 70], pos = 3\<rparr>)) =
     Inr (ascii ''Python SQL '' @ [10] @ ascii ''aws '' @ [10]) \<and>
   snd (get_text_from_file demo_lib ascii_db
     (Some \<lparr>name = ascii ''cv.final.PDF'', content = [37, 80, 68, 70], pos = 3\<rparr>)) =
     Some \<lparr>name = ascii ''cv.final.PDF'', content = [37, 80, 68, 70], pos = 0\<rparr>"
proof -
  have r: "fst (get_text_from_file demo_lib ascii_db
     (Some \<lparr>name = ascii ''cv.final.PDF'', content = [37, 80, 68, 70], pos = 3\<rparr>)) =
     Inr (ascii ''Python SQL '' @ [10] @ ascii ''aws '' @ [10])"
    by (simp add: get_text_from_file_def Let_def seek_def read_def file_type_pdf demo_lib_def demo_pages_def)
       (simp add: ascii_def)
  from get_text_from_file_rewinds [OF r] r show ?thesis
    by simp
qed

section \<open>Properties of the synonym cache\<close>

lemma lru_call_hit:
  assumes "map_of (entries c) k = Some v"
  shows "lru_call f c k =
    (v, c\<lparr>entries := (k, v) # filter (\<lambda>e. fst e \<noteq> k) (entries c), hits := hits c + 1\<rparr>)"
  using assms by (simp add: lru_call_def)

lemma lru_call_miss:
  assumes "k \<notin> cached_keys c"
  shows "lru_call f c k =
    (f k, c\<lparr>entries := (k, f k) #
        (if maxsize \<le> length (entries c) then butlast (entries c) else entries c),
      misses := misses c + 1\<rparr>)"
proof -
  from assms have "map_of (entries c) k = None"
    by (simp add: cached_keys_def map_of_eq_None_iff)
  then show ?thesis
    by (simp add: lru_call_def Let_def)
qed

lemma cached_key_lookup:
  assumes "k \<in> cached_keys c"
  obtains v where "map_of (entries c) k = Some v" and "(k, v) \<in> set (entries c)"
proof -
  from assms have "map_of (entries c) k \<noteq> None"
    by (simp add: cached_keys_def map_of_eq_None_iff)
  then obtain v where "map_of (entries c) k = Some v"
    by blast
  with that show thesis
    by (blast dest: map_of_SomeD)
qed

lemma cache_ok_entry:
  "cache_ok W U c \<Longrightarrow> (k, v) \<in> set (entries c) \<Longrightarrow> v = get_synonyms_body W U k"
  by (auto simp: cache_ok_def list_all_iff)

lemma get_synonyms_result:
  assumes "cache_ok W U c"
  shows "fst (get_synonyms W U c w) = get_synonyms_body W U w"
proof (cases "w \<in> cached_keys c")
  case True
  then obtain v where v: "map_of (entries c) w = Some v" "(w, v) \<in> set (entries c)"
    by (rule cached_key_lookup)
  with assms show ?thesis
    by (simp add: get_synonyms_def lru_call_hit cache_ok_entry)
next
  case False
  then show ?thesis
    by (simp add: get_synonyms_def lru_call_miss)
qed

lemma get_synonyms_hit:
  assumes "w \<in> cached_keys c"
  shows "misses (snd (get_synonyms W U c w)) = misses c"
    and "cached_keys (snd (get_synonyms W U c w)) = cached_keys c"
proof -
  from assms obtain v where v: "map_of (entries c) w = Some v" "(w, v) \<in> set (entries c)"
    by (rule cached_key_lookup)
  then show "misses (snd (get_synonyms W U c w)) = misses c"
    by (simp add: get_synonyms_def lru_call_hit)
  from v have "cached_keys (snd (get_synonyms W U c w)) =
      insert w (fst ` {e \<in> set (entries c). fst e \<noteq> w})"
    by (simp add: get_synonyms_def lru_call_hit cached_keys_def)
  also from assms have "\<dots> = cached_keys c"
    by (auto simp: cached_keys_def)
  finally show "cached_keys (snd (get_synonyms W U c w)) = cached_keys c" .
qed

lemma keys_butlast:
  assumes "distinct (map fst es)" and "es \<noteq> []"
  shows "fst ` set (butlast es) = fst ` set es - {fst (last es)}"
proof -
  from assms(2) have es: "es = butlast es @ [last es]"
    by simp
  with assms(1) have "distinct (map fst (butlast es @ [last es]))"
    by simp
  then have "fst (last es) \<notin> fst ` set (butlast es)"
    by simp
  moreover from es have "set es = insert (last es) (set (butlast es))"
    by (metis list.simps(15) rotate1.simps(2) set_rotate1)
  ultimately show ?thesis
    by auto
qed

lemma get_synonyms_miss:
  assumes "w \<notin> cached_keys c"
  shows "misses (snd (get_synonyms W U c w)) = misses c + 1"
    and "length (entries c) < maxsize \<Longrightarrow>
      cached_keys (snd (get_synonyms W U c w)) = insert w (cached_keys c)"
    and "cache_ok W U c \<Longrightarrow> length (entries c) = maxsize \<Longrightarrow>
      cached_keys (snd (get_synonyms W U c w)) =
        insert w (cached_keys c - {fst (last (entries c))})"
proof -
  from assms show "misses (snd (get_synonyms W U c w)) = misses c + 1"
    by (simp add: get_synonyms_def lru_call_miss)
  from assms show "cached_keys (snd (get_synonyms W U c w)) = insert w (cached_keys c)"
    if "length (entries c) < maxsize"
    using that by (simp add: get_synonyms_def lru_call_miss cached_keys_def)
  show "cached_keys (snd (get_synonyms W U c w)) =
      insert w (cached_keys c - {fst (last (entries c))})"
    if ok: "cache_ok W U c" and full: "length (entries c) = maxsize"
  proof -
    from full have "entries c \<noteq> []"
      by (auto simp: maxsize_def)
    moreover from ok have "distinct (map fst (entries c))"
      by (simp add: cache_ok_def)
    ultimately have "fst ` set (butlast (entries c)) =
        fst ` set (entries c) - {fst (last (entries c))}"
      by (simp add: keys_butlast)
    with assms full show ?thesis
      by (simp add: get_synonyms_def lru_call_miss cached_keys_def)
  qed
qed

lemma get_synonyms_cached_after: "w \<in> cached_keys (snd (get_synonyms W U c w))"
proof (cases "w \<in> cached_keys c")
  case True
  then show ?thesis
    by (simp add: get_synonyms_hit)
next
  case False
  then show ?thesis
    by (simp add: get_synonyms_def lru_call_miss cached_keys_def)
qed

lemma get_synonyms_cache_ok:
  assumes "cache_ok W U c"
  shows "cache_ok W U (snd (get_synonyms W U c w))"
proof (cases "w \<in> cached_keys c")
  case True
  then obtain v where v: "map_of (entries c) w = Some v" "(w, v) \<in> set (entries c)"
    by (rule cached_key_lookup)
  from v(2) have "length (filter (\<lambda>e. fst e \<noteq> w) (entries c)) < length (entries c)"
    by (intro length_filter_less [of "(w, v)"]) simp_all
  moreover from assms v have "v = get_synonyms_body W U w"
    by (simp add: cache_ok_entry)
  ultimately show ?thesis
    using assms v
    by (auto simp: get_synonyms_def lru_call_hit cache_ok_def list_all_iff distinct_map_filter)
next
  case False
  from assms have "distinct (butlast (map fst (entries c)))"
    by (intro distinct_butlast) (simp add: cache_ok_def)
  then have "distinct (map fst (butlast (entries c)))"
    by (simp add: map_butlast)
  moreover have "w \<notin> fst ` set (butlast (entries c))"
    using False by (auto simp: cached_keys_def dest: in_set_butlastD)
  moreover have "length (butlast (entries c)) < maxsize" if "maxsize \<le> length (entries c)"
    using that assms by (simp add: cache_ok_def maxsize_def)
  ultimately show ?thesis
    using assms False
    by (auto simp: get_synonyms_def lru_call_miss cache_ok_def list_all_iff cached_keys_def
        dest: in_set_butlastD)
qed

lemma get_synonyms_hit_order:
  assumes "w \<in> cached_keys c"
  shows "map fst (entries (snd (get_synonyms W U c w))) =
    w # filter (\<lambda>k. k \<noteq> w) (map fst (entries c))"
proof -
  from assms obtain v where "map_of (entries c) w = Some v"
    by (rule cached_key_lookup)
  then show ?thesis
    by (simp add: get_synonyms_def lru_call_hit filter_map comp_def)
qed

lemma get_synonyms_miss_order:
  assumes "w \<notin> cached_keys c"
  shows "map fst (entries (snd (get_synonyms W U c w))) =
    w # (if length (entries c) < maxsize then map fst (entries c)
         else butlast (map fst (entries c)))"
  using assms by (simp add: get_synonyms_def lru_call_miss map_butlast not_less)

lemma remdups_snoc: "remdups (ws @ [w]) = filter (\<lambda>k. k \<noteq> w) (remdups ws) @ [w]"
  by (induction ws) auto

lemma filter_take_present:
  assumes "distinct R" and "w \<in> set (take n R)"
  shows "filter (\<lambda>k. k \<noteq> w) (take n R) = take (n - 1) (filter (\<lambda>k. k \<noteq> w) R)"
  using assms
proof (induction R arbitrary: n)
  case Nil
  then show ?case
    by simp
next
  case (Cons x xs)
  from Cons.prems(2) obtain m where n: "n = Suc m"
    by (cases n) simp_all
  show ?case
  proof (cases "x = w")
    case True
    with Cons.prems(1) have "w \<notin> set xs"
      by simp
    then have "filter (\<lambda>k. k \<noteq> w) xs = xs"
      and "filter (\<lambda>k. k \<noteq> w) (take m xs) = take m xs"
      by (auto simp: filter_id_conv dest: in_set_takeD)
    with True n show ?thesis
      by simp
  next
    case False
    with Cons.prems n have d: "distinct xs" and w: "w \<in> set (take m xs)"
      by auto
    from w obtain k where m: "m = Suc k"
      by (cases m) simp_all
    from Cons.IH [OF d w] False n m show ?thesis
      by simp
  qed
qed

lemma take_filter_absent:
  assumes "w \<notin> set (take n R)"
  shows "take (n - 1) (filter (\<lambda>k. k \<noteq> w) R) = take (n - 1) R"
  using assms
proof (induction R arbitrary: n)
  case Nil
  then show ?case
    by simp
next
  case (Cons x xs)
  show ?case
  proof (cases n)
    case 0
    then show ?thesis
      by simp
  next
    case (Suc m)
    with Cons.prems have x: "x \<noteq> w" and w: "w \<notin> set (take m xs)"
      by auto
    show ?thesis
    proof (cases m)
      case 0
      with Suc show ?thesis
        by simp
    next
      case (Suc k)
      from Cons.IH [OF w] x \<open>n = Suc m\<close> Suc show ?thesis
        by simp
    qed
  qed
qed

lemma get_synonyms_each_snoc:
  "get_synonyms_each W U c (ws @ [w]) = snd (get_synonyms W U (get_synonyms_each W U c ws) w)"
  by (simp add: get_synonyms_each_def)

lemma get_synonyms_each_recency:
  "map fst (entries (get_synonyms_each W U empty_cache ws)) = take maxsize (rev (remdups ws))"
proof (induction ws rule: rev_induct)
  case Nil
  show ?case
    by (simp add: get_synonyms_each_def empty_cache_def)
next
  case (snoc w ws)
  let ?c = "get_synonyms_each W U empty_cache ws"
  let ?R = "rev (remdups ws)"
  let ?F = "filter (\<lambda>k. k \<noteq> w) ?R"
  have keys: "map fst (entries ?c) = take maxsize ?R"
    by (rule snoc.IH)
  then have cached: "cached_keys ?c = set (take maxsize ?R)"
    by (metis cached_keys_def list.set_map)
  have len: "length (entries ?c) = min (length ?R) maxsize"
    using keys by (metis length_map length_take)
  have goal: "take maxsize (rev (remdups (ws @ [w]))) = w # take (maxsize - 1) ?F"
    by (simp add: remdups_snoc rev_filter maxsize_def)
  have "map fst (entries (snd (get_synonyms W U ?c w))) = w # take (maxsize - 1) ?F"
  proof (cases "w \<in> cached_keys ?c")
    case True
    with cached have "filter (\<lambda>k. k \<noteq> w) (take maxsize ?R) = take (maxsize - 1) ?F"
      by (intro filter_take_present) simp_all
    with True keys show ?thesis
      by (simp add: get_synonyms_hit_order)
  next
    case False
    with cached have same: "take (maxsize - 1) ?F = take (maxsize - 1) ?R"
      by (intro take_filter_absent) simp
    show ?thesis
    proof (cases "length (entries ?c) < maxsize")
      case True
      with len have "length ?R < maxsize"
        by simp
      with keys same True False show ?thesis
        by (simp add: get_synonyms_miss_order)
    next
      case full: False
      with len have "maxsize \<le> length ?R"
        by simp
      then have "butlast (take maxsize ?R) = take (maxsize - 1) ?R"
        by (simp add: butlast_take)
      with keys same full False show ?thesis
        by (simp add: get_synonyms_miss_order)
    qed
  qed
  with goal show ?case
    by (simp add: get_synonyms_each_snoc)
qed

text \<open>
  C5, as the code has it: the resolver is memoized by a least-recently-used cache of at
  most 500 words. Every call returns what the lexical database gives for the word. A call
  for a cached word queries nothing and evicts nothing, and moves the word to the front
  of the entries, the others keeping their order; so an immediately repeated call is
  served from the cache. A call for a word that is not cached queries the database once
  and puts the word at the front; the cache grows by that entry while it holds fewer than
  500 words, and at 500 words the last entry leaves it. The entries are therefore in the
  order of their last use: after any sequence of calls from the empty cache they are the
  at most 500 most recently used distinct words, the most recent first, and the entry
  that leaves is the least recently used one.
\<close>

theorem get_synonyms_lru:
  assumes "cache_ok W U c"
  shows "(case get_synonyms W U c w of (r, c') \<Rightarrow>
     r = get_synonyms_body W U w \<and>
     cache_ok W U c' \<and> length (entries c') \<le> maxsize \<and> w \<in> cached_keys c' \<and>
     fst (get_synonyms W U c' w) = r \<and> misses (snd (get_synonyms W U c' w)) = misses c' \<and>
     (if w \<in> cached_keys c
      then misses c' = misses c \<and> cached_keys c' = cached_keys c \<and>
        map fst (entries c') = w # filter (\<lambda>k. k \<noteq> w) (map fst (entries c))
      else misses c' = misses c + 1 \<and>
        (if length (entries c) < maxsize
         then cached_keys c' = insert w (cached_keys c) \<and>
           map fst (entries c') = w # map fst (entries c)
         else cached_keys c' = insert w (cached_keys c - {fst (last (entries c))}) \<and>
           map fst (entries c') = w # butlast (map fst (entries c))))) \<and>
   map fst (entries (get_synonyms_each W U empty_cache ws)) = take maxsize (rev (remdups ws))"
proof
  obtain r c' where call: "get_synonyms W U c w = (r, c')"
    by (cases "get_synonyms W U c w")
  from call have r: "r = fst (get_synonyms W U c w)" and c': "c' = snd (get_synonyms W U c w)"
    by simp_all
  from assms have res: "r = get_synonyms_body W U w"
    unfolding r by (rule get_synonyms_result)
  from assms have ok': "cache_ok W U c'"
    unfolding c' by (rule get_synonyms_cache_ok)
  then have len: "length (entries c') \<le> maxsize"
    by (simp add: cache_ok_def)
  have cached: "w \<in> cached_keys c'"
    unfolding c' by (rule get_synonyms_cached_after)
  from ok' res have again: "fst (get_synonyms W U c' w) = r"
    by (simp add: get_synonyms_result)
  from cached have quiet: "misses (snd (get_synonyms W U c' w)) = misses c'"
    by (rule get_synonyms_hit)
  have counted: "misses c' = misses c \<and> cached_keys c' = cached_keys c \<and>
      map fst (entries c') = w # filter (\<lambda>k. k \<noteq> w) (map fst (entries c))"
    if "w \<in> cached_keys c"
    unfolding c' using that by (simp add: get_synonyms_hit get_synonyms_hit_order)
  have full: "length (entries c) = maxsize" if "\<not> length (entries c) < maxsize"
    using that assms by (simp add: cache_ok_def)
  have missed: "misses c' = misses c + 1 \<and>
      (if length (entries c) < maxsize
       then cached_keys c' = insert w (cached_keys c) \<and>
         map fst (entries c') = w # map fst (entries c)
       else cached_keys c' = insert w (cached_keys c - {fst (last (entries c))}) \<and>
         map fst (entries c') = w # butlast (map fst (entries c)))"
    if "w \<notin> cached_keys c"
    unfolding c' using that assms full by (simp add: get_synonyms_miss get_synonyms_miss_order)
  from res ok' len cached again quiet counted missed
  show "case get_synonyms W U c w of (r, c') \<Rightarrow>
     r = get_synonyms_body W U w \<and>
     cache_ok W U c' \<and> length (entries c') \<le> maxsize \<and> w \<in> cached_keys c' \<and>
     fst (get_synonyms W U c' w) = r \<and> misses (snd (get_synonyms W U c' w)) = misses c' \<and>
     (if w \<in> cached_keys c
      then misses c' = misses c \<and> cached_keys c' = cached_keys c \<and>
        map fst (entries c') = w # filter (\<lambda>k. k \<noteq> w) (map fst (entries c))
      else misses c' = misses c + 1 \<and>
        (if length (entries c) < maxsize
         then cached_keys c' = insert w (cached_keys c) \<and>
           map fst (entries c') = w # map fst (entries c)
         else cached_keys c' = insert w (cached_keys c - {fst (last (entries c))}) \<and>
           map fst (entries c') = w # butlast (map fst (entries c))))"
    by (simp add: call)
  show "map fst (entries (get_synonyms_each W U empty_cache ws)) =
      take maxsize (rev (remdups ws))"
    by (rule get_synonyms_each_recency)
qed

lemma empty_cache_ok: "cache_ok W U empty_cache"
  by (simp add: cache_ok_def empty_cache_def)

lemma small_wordnet_coding:
  "get_synonyms_body small_wordnet ascii_db (ascii ''coding'') =
     {ascii ''coding'', ascii ''programming'', ascii ''computer programming''}"
  by (simp add: get_synonyms_body_def small_wordnet_def replace_underscore_def lower_def
      lower_char_def is_upper_az_def is_space_def ascii_def insert_commute)

theorem get_synonyms_lru_witness:
  "cache_ok small_wordnet ascii_db empty_cache \<and>
   fst (get_synonyms small_wordnet ascii_db empty_cache (ascii ''coding'')) =
     {ascii ''coding'', ascii ''programming'', ascii ''computer programming''} \<and>
   misses (snd (get_synonyms small_wordnet ascii_db empty_cache (ascii ''coding''))) = 1 \<and>
   misses (snd (get_synonyms small_wordnet ascii_db
     (snd (get_synonyms small_wordnet ascii_db empty_cache (ascii ''coding'')))
     (ascii ''coding''))) = 1 \<and>
   map fst (entries (get_synonyms_each small_wordnet ascii_db empty_cache
     [ascii ''coding'', ascii ''programming'', ascii ''coding''])) =
     [ascii ''coding'', ascii ''programming'']"
proof -
  have ok: "cache_ok small_wordnet ascii_db empty_cache"
    by (rule empty_cache_ok)
  have new: "ascii ''coding'' \<notin> cached_keys empty_cache" and zero: "misses empty_cache = 0"
    by (simp_all add: cached_keys_def empty_cache_def)
  have ne: "ascii ''coding'' \<noteq> ascii ''programming''"
    "ascii ''programming'' \<noteq> ascii ''coding''"
    by (simp_all add: ascii_def)
  note lru = get_synonyms_lru [OF ok, of "ascii ''coding''"
    "[ascii ''coding'', ascii ''programming'', ascii ''coding'']"]
  from lru [THEN conjunct1] ok new zero have calls:
    "fst (get_synonyms small_wordnet ascii_db empty_cache (ascii ''coding'')) =
       {ascii ''coding'', ascii ''programming'', ascii ''computer programming''} \<and>
     misses (snd (get_synonyms small_wordnet ascii_db empty_cache (ascii ''coding''))) = 1 \<and>
     misses (snd (get_synonyms small_wordnet ascii_db
       (snd (get_synonyms small_wordnet ascii_db empty_cache (ascii ''coding'')))
       (ascii ''coding''))) = 1"
    by (simp add: small_wordnet_coding split: prod.splits)
  from lru [THEN conjunct2] ne have order:
    "map fst (entries (get_synonyms_each small_wordnet ascii_db empty_cache
       [ascii ''coding'', ascii ''programming'', ascii ''coding''])) =
       [ascii ''coding'', ascii ''programming'']"
    by (simp add: maxsize_def)
  from ok calls order show ?thesis
    by (simp only: simp_thms)
qed

lemma get_synonyms_each_fresh:
  assumes "distinct ws"
  shows "map fst (entries (get_synonyms_each W U empty_cache ws)) = take maxsize (rev ws) \<and>
    misses (get_synonyms_each W U empty_cache ws) = length ws"
  using assms
proof (induction ws rule: rev_induct)
  case Nil
  show ?case
    by (simp add: get_synonyms_each_def empty_cache_def)
next
  case (snoc w ws)
  let ?c = "get_synonyms_each W U empty_cache ws"
  from snoc have keys: "map fst (entries ?c) = take maxsize (rev ws)"
    and count: "misses ?c = length ws" and fresh: "w \<notin> set ws"
    by simp_all
  from keys have len: "length (entries ?c) = min (length ws) maxsize"
    by (metis length_map length_take length_rev)
  from keys fresh have "w \<notin> cached_keys ?c"
    by (metis cached_keys_def in_set_takeD list.set_map set_rev)
  then have call: "get_synonyms W U ?c w = (get_synonyms_body W U w,
      ?c\<lparr>entries := (w, get_synonyms_body W U w) #
          (if maxsize \<le> length (entries ?c) then butlast (entries ?c) else entries ?c),
        misses := misses ?c + 1\<rparr>)"
    by (simp add: get_synonyms_def lru_call_miss)
  have "map fst (if maxsize \<le> length (entries ?c) then butlast (entries ?c) else entries ?c) =
      take (maxsize - 1) (rev ws)"
  proof (cases "maxsize \<le> length ws")
    case True
    with len have "map fst (butlast (entries ?c)) = butlast (take maxsize (rev ws))"
      by (simp add: map_butlast keys)
    also from True have "\<dots> = take (maxsize - 1) (rev ws)"
      by (simp add: butlast_take)
    finally show ?thesis
      using True len by simp
  next
    case False
    with len keys show ?thesis
      by simp
  qed
  with call count show ?case
    by (simp add: get_synonyms_each_snoc maxsize_def)
qed

lemma oldest_evicted:
  assumes "distinct ws" and "length ws = maxsize + 1"
  shows "hd ws \<notin> cached_keys (get_synonyms_each W U empty_cache ws)"
    and "misses (get_synonyms_each W U empty_cache ws) = maxsize + 1"
    and "misses (snd (get_synonyms W U (get_synonyms_each W U empty_cache ws) (hd ws))) =
      maxsize + 2"
proof -
  let ?c = "get_synonyms_each W U empty_cache ws"
  from assms(2) obtain w0 rest where ws: "ws = w0 # rest" and rest: "length rest = maxsize"
    by (cases ws) simp_all
  from get_synonyms_each_fresh [OF assms(1), of W U]
  have keys: "map fst (entries ?c) = take maxsize (rev ws)"
    and count: "misses ?c = length ws"
    by simp_all
  from ws rest have "take maxsize (rev ws) = rev rest"
    by simp
  with keys have "cached_keys ?c = set rest"
    by (metis cached_keys_def list.set_map set_rev)
  with assms(1) ws show gone: "hd ws \<notin> cached_keys ?c"
    by simp
  from count assms(2) show m: "misses ?c = maxsize + 1"
    by simp
  from gone m show "misses (snd (get_synonyms W U ?c (hd ws))) = maxsize + 2"
    by (simp add: get_synonyms_miss)
qed

lemma many_words_distinct: "distinct (many_words n)"
proof -
  have "inj (\<lambda>i. replicate (Suc i) (98::nat))"
    by (rule injI) (metis length_replicate nat.inject)
  then show ?thesis
    by (simp add: many_words_def distinct_map inj_on_def)
qed

lemma many_words_hd: "0 < n \<Longrightarrow> hd (many_words n) = [98]"
  by (simp add: many_words_def hd_map)

text \<open>
  The claim C5 as stated, that the cache never evicts and a repeated call never queries
  the database again, does not hold: after \<open>get_synonyms\<close> was called for 501 distinct
  words, the first of them, which was cached by its call, is cached no longer, and
  calling it again is the query number 502.
\<close>

theorem get_synonyms_eviction_counterexample:
  "[98] \<in> cached_keys (get_synonyms_each no_synsets ascii_db empty_cache [[98]]) \<and>
   [98] \<notin> cached_keys (get_synonyms_each no_synsets ascii_db empty_cache (many_words 501)) \<and>
   misses (get_synonyms_each no_synsets ascii_db empty_cache (many_words 501)) = 501 \<and>
   misses (snd (get_synonyms no_synsets ascii_db
      (get_synonyms_each no_synsets ascii_db empty_cache (many_words 501)) [98])) = 502"
proof -
  have first: "[98] \<in> cached_keys (get_synonyms_each no_synsets ascii_db empty_cache [[98]])"
    by (simp add: get_synonyms_each_def get_synonyms_cached_after)
  have l: "length (many_words 501) = maxsize + 1"
    by (simp add: many_words_def maxsize_def)
  have h: "hd (many_words 501) = [98]"
    by (simp add: many_words_hd)
  from first oldest_evicted [OF many_words_distinct l, of no_synsets ascii_db] show ?thesis
    by (simp add: h maxsize_def)
qed

section \<open>Properties of the float arithmetic\<close>

lemma bitlen_pos_bounds:
  fixes p :: int
  assumes "0 < p"
  shows "(2::rat) powi (bitlen p - 1) \<le> of_int p" and "of_int p < (2::rat) powi (bitlen p)"
proof -
  from assms have b: "1 \<le> bitlen p"
    by (simp add: bitlen_alt_def)
  from bitlen_bounds [OF assms]
  have lo: "2 ^ nat (bitlen p - 1) \<le> p" and hi: "p < 2 ^ nat (bitlen p)"
    by simp_all
  from lo have "(of_int (2 ^ nat (bitlen p - 1)) :: rat) \<le> of_int p"
    by (simp only: of_int_le_iff)
  with b show "(2::rat) powi (bitlen p - 1) \<le> of_int p"
    by (simp add: power_int_nonneg_exp)
  from hi have "(of_int p :: rat) < of_int (2 ^ nat (bitlen p))"
    by (simp only: of_int_less_iff)
  with b show "of_int p < (2::rat) powi (bitlen p)"
    by (simp add: power_int_nonneg_exp)
qed

lemma binade_bounds:
  assumes "0 < x"
  shows "2 powi (binade x) \<le> x" and "x < 2 powi (binade x + 1)"
proof -
  obtain p q where pq: "quotient_of x = (p, q)"
    by (cases "quotient_of x")
  then have q: "0 < q" and x: "x = of_int p / of_int q"
    by (simp_all add: quotient_of_denom_pos quotient_of_div)
  with assms have p: "0 < p"
    by (simp add: zero_less_divide_iff)
  let ?e = "bitlen p - bitlen q"
  note P = bitlen_pos_bounds [OF p] and Q = bitlen_pos_bounds [OF q]
  from q have q': "(0::rat) < of_int q"
    by simp
  have "x < 2 powi (bitlen p) / 2 powi (bitlen q - 1)"
    unfolding x using P(2) Q(1) p by (intro frac_less) simp_all
  also have "\<dots> = 2 powi (?e + 1)"
    by (simp add: power_int_diff [symmetric] algebra_simps)
  finally have hi: "x < 2 powi (?e + 1)" .
  have "2 powi (?e - 1) = (2::rat) powi (bitlen p - 1) / 2 powi (bitlen q)"
    by (simp add: power_int_diff [symmetric] algebra_simps)
  also have "\<dots> < x"
    unfolding x using P(1) Q(2) q' by (intro frac_less2) simp_all
  finally have lo: "2 powi (?e - 1) < x" .
  have b: "binade x = (if 2 powi ?e \<le> x then ?e else ?e - 1)"
    by (simp add: binade_def pq)
  from lo b show "2 powi (binade x) \<le> x"
    by (simp split: if_splits)
  from hi b show "x < 2 powi (binade x + 1)"
    by (simp split: if_splits)
qed

lemma round_half_even_ge: "\<lfloor>r\<rfloor> \<le> round_half_even r"
  by (simp add: round_half_even_def Let_def)

lemma round_half_even_le: "round_half_even r \<le> \<lfloor>r\<rfloor> + 1"
  by (simp add: round_half_even_def Let_def)

lemma round_half_even_of_int: "round_half_even (of_int n) = n"
  by (simp add: round_half_even_def)

lemma round_half_even_mono:
  assumes "r \<le> s"
  shows "round_half_even r \<le> round_half_even s"
proof (cases "\<lfloor>r\<rfloor> = \<lfloor>s\<rfloor>")
  case True
  with assms have "r - of_int \<lfloor>r\<rfloor> \<le> s - of_int \<lfloor>s\<rfloor>"
    by simp
  with True show ?thesis
    by (simp add: round_half_even_def Let_def)
next
  case False
  with assms have "\<lfloor>r\<rfloor> + 1 \<le> \<lfloor>s\<rfloor>"
    using floor_mono [of r s] by simp
  with round_half_even_le [of r] round_half_even_ge [of s] show ?thesis
    by linarith
qed

lemma fl64_pos:
  "0 < x \<Longrightarrow> fl64 x = of_int (round_half_even (x / 2 powi (binade x - 52))) * 2 powi (binade x - 52)"
  by (simp add: fl64_def Let_def)

lemma fl64_nonneg:
  assumes "0 \<le> x"
  shows "0 \<le> fl64 x"
proof (cases "x = 0")
  case True
  then show ?thesis
    by (simp add: fl64_def)
next
  case False
  with assms have x: "0 < x"
    by simp
  let ?u = "(2::rat) powi (binade x - 52)"
  from x have "0 \<le> x / ?u"
    by simp
  then have "0 \<le> \<lfloor>x / ?u\<rfloor>"
    by simp
  with round_half_even_ge [of "x / ?u"] have "0 \<le> round_half_even (x / ?u)"
    by (rule order_trans [rotated])
  with x show ?thesis
    by (simp add: fl64_pos)
qed

lemma fl64_le_of_int:
  assumes x: "0 < x" and k: "x \<le> of_int k" and small: "x < 2 ^ 53"
  shows "fl64 x \<le> of_int k"
proof -
  let ?e = "binade x"
  have "?e < 53"
  proof (rule ccontr)
    assume "\<not> ?e < 53"
    then have "(2::rat) powi 53 \<le> 2 powi ?e"
      by (intro power_int_increasing) simp_all
    with binade_bounds(1) [OF x] small show False
      by simp
  qed
  define n where "n = nat (52 - ?e)"
  with \<open>?e < 53\<close> have e: "?e - 52 = - int n"
    by simp
  have u: "(2::rat) powi (?e - 52) = 1 / 2 ^ n"
    unfolding e by (simp add: power_int_minus_divide)
  from k have "x * 2 ^ n \<le> of_int k * 2 ^ n"
    by simp
  also have "\<dots> = of_int (k * 2 ^ n)"
    by simp
  finally have "round_half_even (x * 2 ^ n) \<le> round_half_even (of_int (k * 2 ^ n))"
    by (rule round_half_even_mono)
  then have "round_half_even (x * 2 ^ n) \<le> k * 2 ^ n"
    by (simp only: round_half_even_of_int)
  then have "(of_int (round_half_even (x * 2 ^ n)) :: rat) \<le> of_int (k * 2 ^ n)"
    by (simp only: of_int_le_iff)
  then have "(of_int (round_half_even (x * 2 ^ n)) :: rat) / 2 ^ n \<le> of_int k"
    by (simp add: pos_divide_le_eq)
  with x show ?thesis
    by (simp add: fl64_pos u)
qed

lemma ats_score_range:
  assumes "m \<le> n" and "0 < n"
  shows "\<exists>a. ats_score m n True = Inr a \<and> 0 \<le> a \<and> a \<le> 100"
proof -
  let ?q = "fl64 (of_nat m / of_nat n)"
  let ?p = "fl64 (?q * 100)"
  have q0: "0 \<le> ?q"
    by (rule fl64_nonneg) simp
  have q1: "?q \<le> 1"
  proof (cases "m = 0")
    case True
    then show ?thesis
      by (simp add: fl64_def)
  next
    case False
    with assms have "0 < (of_nat m / of_nat n :: rat)" and "(of_nat m / of_nat n :: rat) \<le> 1"
      by simp_all
    then have "?q \<le> of_int 1"
      by (intro fl64_le_of_int) simp_all
    then show ?thesis
      by simp
  qed
  from q0 have p0: "0 \<le> ?p"
    by (intro fl64_nonneg) simp
  have p1: "?p \<le> 100"
  proof (cases "?q = 0")
    case True
    then show ?thesis
      by (simp add: fl64_def)
  next
    case False
    with q0 q1 have "0 < ?q * 100" and "?q * 100 \<le> of_int 100"
      by simp_all
    then have "?p \<le> of_int 100"
      by (intro fl64_le_of_int) simp_all
    then show ?thesis
      by simp
  qed
  from p0 p1 have "0 \<le> py_int ?p \<and> py_int ?p \<le> 100"
    by (simp add: py_int_def floor_le_iff)
  with assms show ?thesis
    by (simp add: ats_score_def int_truediv_def float_mul_def)
qed

section \<open>Properties of the score\<close>

lemma match_loop_sets:
  assumes "match_loop W U rkw (c, m, ms) ws = (c', m', ms')"
  shows "m' \<union> ms' = m \<union> ms \<union> set ws \<and> m' \<subseteq> m \<union> set ws \<and> ms' \<subseteq> ms \<union> set ws"
  using assms
proof (induction ws arbitrary: c m ms)
  case Nil
  then show ?case
    by auto
next
  case (Cons word rest)
  show ?case
  proof (cases "word \<in> rkw")
    case True
    with Cons.prems have "match_loop W U rkw (c, insert word m, ms) rest = (c', m', ms')"
      by simp
    from Cons.IH [OF this] show ?thesis
      by auto
  next
    case False
    obtain syns c2 where call: "get_synonyms W U c word = (syns, c2)"
      by (cases "get_synonyms W U c word")
    show ?thesis
    proof (cases "syns \<inter> rkw \<noteq> {}")
      case True
      with Cons.prems False call
      have "match_loop W U rkw (c2, insert word m, ms) rest = (c', m', ms')"
        by simp
      from Cons.IH [OF this] show ?thesis
        by auto
    next
      case False
      with Cons.prems \<open>word \<notin> rkw\<close> call
      have "match_loop W U rkw (c2, m, insert word ms) rest = (c', m', ms')"
        by simp
      from Cons.IH [OF this] show ?thesis
        by auto
    qed
  qed
qed

lemma match_loop_disjoint:
  assumes "match_loop W U rkw (c, m, ms) ws = (c', m', ms')"
    and "distinct ws" and "set ws \<inter> (m \<union> ms) = {}" and "m \<inter> ms = {}"
  shows "m' \<inter> ms' = {}"
  using assms
proof (induction ws arbitrary: c m ms)
  case Nil
  then show ?case
    by simp
next
  case (Cons word rest)
  from Cons.prems have d: "distinct rest" and fresh: "word \<notin> set rest" "word \<notin> m" "word \<notin> ms"
    and rest: "set rest \<inter> (m \<union> ms) = {}"
    by auto
  from fresh rest have into_m: "set rest \<inter> (insert word m \<union> ms) = {}"
    and into_ms: "set rest \<inter> (m \<union> insert word ms) = {}"
    by auto
  from fresh Cons.prems(4) have dis_m: "insert word m \<inter> ms = {}"
    and dis_ms: "m \<inter> insert word ms = {}"
    by auto
  show ?case
  proof (cases "word \<in> rkw")
    case True
    with Cons.prems(1) have "match_loop W U rkw (c, insert word m, ms) rest = (c', m', ms')"
      by simp
    from Cons.IH [OF this d into_m dis_m] show ?thesis .
  next
    case False
    obtain syns c2 where call: "get_synonyms W U c word = (syns, c2)"
      by (cases "get_synonyms W U c word")
    show ?thesis
    proof (cases "syns \<inter> rkw \<noteq> {}")
      case True
      with Cons.prems(1) False call
      have "match_loop W U rkw (c2, insert word m, ms) rest = (c', m', ms')"
        by simp
      from Cons.IH [OF this d into_m dis_m] show ?thesis .
    next
      case False
      with Cons.prems(1) \<open>word \<notin> rkw\<close> call
      have "match_loop W U rkw (c2, m, insert word ms) rest = (c', m', ms')"
        by simp
      from Cons.IH [OF this d into_ms dis_ms] show ?thesis .
    qed
  qed
qed

lemma match_loop_cached:
  assumes "match_loop W U rkw (c, m, ms) ws = (c', m', ms')" and "cache_ok W U c"
  shows "cache_ok W U c' \<and>
    m' = m \<union> {w \<in> set ws. w \<in> rkw \<or> get_synonyms_body W U w \<inter> rkw \<noteq> {}} \<and>
    ms' = ms \<union> {w \<in> set ws. \<not> (w \<in> rkw \<or> get_synonyms_body W U w \<inter> rkw \<noteq> {})}"
  using assms
proof (induction ws arbitrary: c m ms)
  case Nil
  then show ?case
    by simp
next
  case (Cons word rest)
  show ?case
  proof (cases "word \<in> rkw")
    case True
    with Cons.prems have "match_loop W U rkw (c, insert word m, ms) rest = (c', m', ms')"
      by simp
    from Cons.IH [OF this Cons.prems(2)] True show ?thesis
      by auto
  next
    case False
    obtain syns c2 where call: "get_synonyms W U c word = (syns, c2)"
      by (cases "get_synonyms W U c word")
    with Cons.prems(2) have syns: "syns = get_synonyms_body W U word" and ok: "cache_ok W U c2"
      using get_synonyms_result [of W U c word] get_synonyms_cache_ok [of W U c word]
      by simp_all
    show ?thesis
    proof (cases "syns \<inter> rkw \<noteq> {}")
      case True
      with Cons.prems(1) False call
      have "match_loop W U rkw (c2, insert word m, ms) rest = (c', m', ms')"
        by simp
      from Cons.IH [OF this ok] True syns show ?thesis
        by auto
    next
      case False
      with Cons.prems(1) \<open>word \<notin> rkw\<close> call
      have "match_loop W U rkw (c2, m, insert word ms) rest = (c', m', ms')"
        by simp
      from Cons.IH [OF this ok] False \<open>word \<notin> rkw\<close> syns show ?thesis
        by auto
    qed
  qed
qed

lemma ats_score_empty: "ats_score m n False = Inr 0"
  by (simp add: ats_score_def)

lemma calculate_ats_in_order_result:
  assumes order: "set order = jd_kw"
  obtains ats matches missing c' where
    "calculate_ats_in_order W U c rkw jd_kw order =
       Inr ((ats, min (ats + int (card (matches \<inter> priority)) * 2) 100, matches, missing), c')"
    and "match_loop W U rkw (c, {}, {}) order = (c', matches, missing)"
    and "ats_score (card matches) (card jd_kw) (jd_kw \<noteq> {}) = Inr ats"
    and "0 \<le> ats" and "ats \<le> 100"
proof -
  obtain c' matches missing where
    loop: "match_loop W U rkw (c, {}, {}) order = (c', matches, missing)"
    by (cases "match_loop W U rkw (c, {}, {}) order")
  from match_loop_sets [OF loop] order have sub: "matches \<subseteq> jd_kw"
    by simp
  from order have fin: "finite jd_kw"
    by auto
  have "\<exists>ats. ats_score (card matches) (card jd_kw) (jd_kw \<noteq> {}) = Inr ats \<and>
      0 \<le> ats \<and> ats \<le> 100"
  proof (cases "jd_kw = {}")
    case True
    then show ?thesis
      by (simp add: ats_score_empty)
  next
    case False
    with fin have "0 < card jd_kw"
      by (simp add: card_gt_0_iff)
    moreover from sub fin have "card matches \<le> card jd_kw"
      by (simp add: card_mono)
    ultimately show ?thesis
      using False by (simp add: ats_score_range)
  qed
  then obtain ats where
    ats: "ats_score (card matches) (card jd_kw) (jd_kw \<noteq> {}) = Inr ats"
    and range: "0 \<le> ats" "ats \<le> 100"
    by blast
  from loop ats have "calculate_ats_in_order W U c rkw jd_kw order =
      Inr ((ats, min (ats + int (card (matches \<inter> priority)) * 2) 100, matches, missing), c')"
    by (simp add: calculate_ats_in_order_def)
  then show thesis
    using loop ats range by (rule that)
qed

lemma order_of_keywords: "set (remdups (keyword_tokens U jd_text)) = extract_keywords U jd_text"
  by (simp add: extract_keywords_def)

lemma calculate_ats_outputs:
  assumes "cache_ok W U c"
  shows "map_sum id fst (calculate_ats W U c r j) =
    (case ats_score
        (card {w \<in> extract_keywords U j.
           w \<in> extract_keywords U r \<or> get_synonyms_body W U w \<inter> extract_keywords U r \<noteq> {}})
        (card (extract_keywords U j)) (extract_keywords U j \<noteq> {}) of
       Inl e \<Rightarrow> Inl e
     | Inr ats \<Rightarrow>
         Inr (ats,
           min (ats + int (card ({w \<in> extract_keywords U j.
             w \<in> extract_keywords U r \<or> get_synonyms_body W U w \<inter> extract_keywords U r \<noteq> {}}
             \<inter> priority)) * 2) 100,
           {w \<in> extract_keywords U j.
             w \<in> extract_keywords U r \<or> get_synonyms_body W U w \<inter> extract_keywords U r \<noteq> {}},
           {w \<in> extract_keywords U j.
             \<not> (w \<in> extract_keywords U r \<or>
                get_synonyms_body W U w \<inter> extract_keywords U r \<noteq> {})}))"
proof -
  let ?order = "remdups (keyword_tokens U j)"
  have order: "set ?order = extract_keywords U j"
    by (rule order_of_keywords)
  obtain ats matches missing c' where
    res: "calculate_ats_in_order W U c (extract_keywords U r) (extract_keywords U j) ?order =
       Inr ((ats, min (ats + int (card (matches \<inter> priority)) * 2) 100, matches, missing), c')"
    and loop: "match_loop W U (extract_keywords U r) (c, {}, {}) ?order = (c', matches, missing)"
    and ats: "ats_score (card matches) (card (extract_keywords U j)) (extract_keywords U j \<noteq> {}) =
       Inr ats"
    using order by (rule calculate_ats_in_order_result)
  from match_loop_cached [OF loop assms, unfolded order] have
    m: "matches = {w \<in> extract_keywords U j.
        w \<in> extract_keywords U r \<or> get_synonyms_body W U w \<inter> extract_keywords U r \<noteq> {}}"
    and ms: "missing = {w \<in> extract_keywords U j.
        \<not> (w \<in> extract_keywords U r \<or>
           get_synonyms_body W U w \<inter> extract_keywords U r \<noteq> {})}"
    by simp_all
  from res have "map_sum id fst (calculate_ats W U c r j) =
      Inr (ats, min (ats + int (card (matches \<inter> priority)) * 2) 100, matches, missing)"
    by (simp add: calculate_ats_def)
  with ats show ?thesis
    unfolding m ms by simp
qed

lemma get_synonyms_body_no_synsets: "get_synonyms_body no_synsets U w = {}"
  by (simp add: get_synonyms_body_def no_synsets_def)

lemma matches_no_synsets:
  "{w \<in> set J. w \<in> set R \<or> get_synonyms_body no_synsets U w \<inter> set R \<noteq> {}} =
     set (filter (\<lambda>w. w \<in> set R) J)"
  by (simp add: get_synonyms_body_no_synsets)

lemma missing_no_synsets:
  "{w \<in> set J. \<not> (w \<in> set R \<or> get_synonyms_body no_synsets U w \<inter> set R \<noteq> {})} =
     set (filter (\<lambda>w. w \<notin> set R) J)"
  by (simp add: get_synonyms_body_no_synsets)

lemma jd_example_keywords:
  "extract_keywords ascii_db jd_example = set (map ascii [''python'', ''sql'', ''aws''])"
  by (simp add: jd_example_def text_defs)

lemma resume_example_keywords:
  "extract_keywords ascii_db resume_example =
     set (map ascii [''i'', ''know'', ''python'', ''sql''])"
  by (simp add: resume_example_def text_defs)

lemma ats_score_2_of_3: "ats_score 2 3 True = Inr 66"
  by code_simp

lemma ats_score_29_of_50: "ats_score 29 50 True = Inr 57"
  by code_simp

lemma example_matches:
  "filter (\<lambda>w. w \<in> set (map ascii [''i'', ''know'', ''python'', ''sql'']))
     (map ascii [''python'', ''sql'', ''aws'']) = map ascii [''python'', ''sql'']"
  by (simp add: ascii_def)

lemma example_missing:
  "filter (\<lambda>w. w \<notin> set (map ascii [''i'', ''know'', ''python'', ''sql'']))
     (map ascii [''python'', ''sql'', ''aws'']) = map ascii [''aws'']"
  by (simp add: ascii_def)

lemma example_cards:
  "card (set (map ascii [''python'', ''sql''])) = 2"
  "card (set (map ascii [''python'', ''sql'', ''aws''])) = 3"
  "card (set (map ascii [''python'', ''sql'']) \<inter> priority) = 2"
  "set (map ascii [''python'', ''sql'', ''aws'']) \<noteq> {}"
  by (simp_all add: ascii_def priority_def)

lemma calculate_ats_example:
  "map_sum id fst (calculate_ats no_synsets ascii_db empty_cache resume_example jd_example) =
     Inr (66, 70, set (map ascii [''python'', ''sql'']), set (map ascii [''aws'']))"
  unfolding calculate_ats_outputs [OF empty_cache_ok] jd_example_keywords
    resume_example_keywords matches_no_synsets missing_no_synsets example_matches
    example_missing example_cards
  by (simp add: ats_score_2_of_3)

text \<open>
  C3: for every pair of texts \<open>calculate_ats\<close> returns, and its sets \<open>matches\<close> and
  \<open>missing\<close> partition the keyword set of the job description: their union is
  \<open>extract_keywords(jd_text)\<close> and they are disjoint. This holds whatever the cache holds.
\<close>

theorem calculate_ats_partition:
  "\<exists>ats weighted matches missing c'.
     calculate_ats W U c resume_text jd_text = Inr ((ats, weighted, matches, missing), c') \<and>
     matches \<union> missing = extract_keywords U jd_text \<and> matches \<inter> missing = {}"
proof -
  let ?order = "remdups (keyword_tokens U jd_text)"
  have order: "set ?order = extract_keywords U jd_text"
    by (rule order_of_keywords)
  obtain ats matches missing c' where
    res: "calculate_ats_in_order W U c (extract_keywords U resume_text)
        (extract_keywords U jd_text) ?order =
       Inr ((ats, min (ats + int (card (matches \<inter> priority)) * 2) 100, matches, missing), c')"
    and loop: "match_loop W U (extract_keywords U resume_text) (c, {}, {}) ?order =
       (c', matches, missing)"
    using order by (rule calculate_ats_in_order_result)
  from match_loop_sets [OF loop] order have "matches \<union> missing = extract_keywords U jd_text"
    by simp
  moreover from loop have "matches \<inter> missing = {}"
    by (rule match_loop_disjoint) simp_all
  ultimately show ?thesis
    using res by (simp add: calculate_ats_def)
qed

theorem calculate_ats_partition_witness:
  "map_sum id fst (calculate_ats no_synsets ascii_db empty_cache resume_example jd_example) =
     Inr (66, 70, set (map ascii [''python'', ''sql'']), set (map ascii [''aws''])) \<and>
   set (map ascii [''python'', ''sql'']) \<union> set (map ascii [''aws'']) =
     extract_keywords ascii_db jd_example \<and>
   set (map ascii [''python'', ''sql'']) \<inter> set (map ascii [''aws'']) = {}"
proof -
  from calculate_ats_partition [of no_synsets ascii_db empty_cache resume_example jd_example]
  obtain ats weighted matches missing c' where
    run: "calculate_ats no_synsets ascii_db empty_cache resume_example jd_example =
      Inr ((ats, weighted, matches, missing), c')"
    and part: "matches \<union> missing = extract_keywords ascii_db jd_example"
      "matches \<inter> missing = {}"
    by blast
  from run calculate_ats_example
  have "matches = set (map ascii [''python'', ''sql''])" and "missing = set (map ascii [''aws''])"
    by simp_all
  with part show ?thesis
    by (simp only: calculate_ats_example simp_thms)
qed

text \<open>
  C2: for every pair of texts \<open>calculate_ats\<close> returns, the weighted score is
  \<open>min(ats + 2 * |matches \<inter> priority|, 100)\<close>, \<open>ats\<close> lies in \<open>[0, 100]\<close>, and
  \<open>ats \<le> weighted \<le> 100\<close>. The bounds on \<open>ats\<close> hold for the rounded float
  arithmetic of the source.
\<close>

theorem calculate_ats_weighted:
  "\<exists>ats weighted matches missing c'.
     calculate_ats W U c resume_text jd_text = Inr ((ats, weighted, matches, missing), c') \<and>
     weighted = min (ats + 2 * int (card (matches \<inter> priority))) 100 \<and>
     0 \<le> ats \<and> ats \<le> 100 \<and> ats \<le> weighted \<and> weighted \<le> 100"
proof -
  let ?order = "remdups (keyword_tokens U jd_text)"
  have order: "set ?order = extract_keywords U jd_text"
    by (rule order_of_keywords)
  obtain ats matches missing c' where
    res: "calculate_ats_in_order W U c (extract_keywords U resume_text)
        (extract_keywords U jd_text) ?order =
       Inr ((ats, min (ats + int (card (matches \<inter> priority)) * 2) 100, matches, missing), c')"
    and range: "0 \<le> ats" "ats \<le> 100"
    using order by (rule calculate_ats_in_order_result)
  let ?weighted = "min (ats + int (card (matches \<inter> priority)) * 2) 100"
  from range have "?weighted = min (ats + 2 * int (card (matches \<inter> priority))) 100"
    and "ats \<le> ?weighted" and "?weighted \<le> 100"
    by simp_all
  with res range show ?thesis
    by (simp add: calculate_ats_def)
qed

theorem calculate_ats_weighted_witness:
  "map_sum id fst (calculate_ats no_synsets ascii_db empty_cache resume_example jd_example) =
     Inr (66, 70, set (map ascii [''python'', ''sql'']), set (map ascii [''aws''])) \<and>
   (70::int) = min (66 + 2 * int (card (set (map ascii [''python'', ''sql'']) \<inter> priority))) 100 \<and>
   (66::int) \<le> 70 \<and> (70::int) \<le> 100"
proof -
  from calculate_ats_weighted [of no_synsets ascii_db empty_cache resume_example jd_example]
  obtain ats weighted matches missing c' where
    run: "calculate_ats no_synsets ascii_db empty_cache resume_example jd_example =
      Inr ((ats, weighted, matches, missing), c')"
    and w: "weighted = min (ats + 2 * int (card (matches \<inter> priority))) 100"
    and range: "ats \<le> weighted" "weighted \<le> 100"
    by blast
  from run calculate_ats_example
  have "ats = 66" and "weighted = 70" and "matches = set (map ascii [''python'', ''sql''])"
    by simp_all
  with w range show ?thesis
    by (simp only: calculate_ats_example simp_thms)
qed

lemma calculate_ats_cache_ok:
  assumes "cache_ok W U c" and "calculate_ats W U c r j = Inr (res, c')"
  shows "cache_ok W U c'"
proof -
  let ?order = "remdups (keyword_tokens U j)"
  have "set ?order = extract_keywords U j"
    by (rule order_of_keywords)
  then obtain ats matches missing c2 where
    res: "calculate_ats_in_order W U c (extract_keywords U r) (extract_keywords U j) ?order =
       Inr ((ats, min (ats + int (card (matches \<inter> priority)) * 2) 100, matches, missing), c2)"
    and loop: "match_loop W U (extract_keywords U r) (c, {}, {}) ?order = (c2, matches, missing)"
    by (rule calculate_ats_in_order_result)
  from match_loop_cached [OF loop assms(1)] have "cache_ok W U c2"
    by simp
  with res assms(2) show ?thesis
    by (simp add: calculate_ats_def)
qed

lemma same_tokens_same_keywords:
  assumes "set (re_findall_words U False (clean_text U t1)) =
    set (re_findall_words U False (clean_text U t2))"
  shows "extract_keywords U t1 = extract_keywords U t2"
  using assms by (simp add: extract_keywords_def keyword_tokens_def)

text \<open>
  C10: the four outputs of \<open>calculate_ats\<close> depend on the two texts only through their
  keyword sets: two resumes with the same keywords and two job descriptions with the same
  keywords give the same tuple. The synonym cache may be in a different state at each of
  the two calls; it holds results of the resolver, which is true of the empty cache and
  is kept by every call. Repeating or reordering the words of a text leaves its set of
  tokens, and so its keyword set, as it is.
\<close>

theorem calculate_ats_keyword_sets:
  assumes "cache_ok W U c1" and "cache_ok W U c2"
    and "extract_keywords U r1 = extract_keywords U r2"
    and "extract_keywords U j1 = extract_keywords U j2"
  shows "map_sum id fst (calculate_ats W U c1 r1 j1) = map_sum id fst (calculate_ats W U c2 r2 j2)"
  unfolding calculate_ats_outputs [OF assms(1)] calculate_ats_outputs [OF assms(2)]
    assms(3) assms(4) by (rule refl)

lemma reworded_keywords:
  "extract_keywords ascii_db resume_reworded = extract_keywords ascii_db resume_example"
  "extract_keywords ascii_db jd_reworded = extract_keywords ascii_db jd_example"
  by (simp_all add: resume_reworded_def resume_example_def jd_reworded_def jd_example_def
      text_defs insert_commute)

theorem calculate_ats_keyword_sets_witness:
  "cache_ok no_synsets ascii_db (snd (get_synonyms no_synsets ascii_db empty_cache (ascii ''aws''))) \<and>
   extract_keywords ascii_db resume_reworded = extract_keywords ascii_db resume_example \<and>
   extract_keywords ascii_db jd_reworded = extract_keywords ascii_db jd_example \<and>
   map_sum id fst (calculate_ats no_synsets ascii_db
     (snd (get_synonyms no_synsets ascii_db empty_cache (ascii ''aws'')))
     resume_reworded jd_reworded) =
     Inr (66, 70, set (map ascii [''python'', ''sql'']), set (map ascii [''aws'']))"
proof -
  have ok: "cache_ok no_synsets ascii_db
      (snd (get_synonyms no_synsets ascii_db empty_cache (ascii ''aws'')))"
    by (intro get_synonyms_cache_ok empty_cache_ok)
  from calculate_ats_keyword_sets [OF ok empty_cache_ok reworded_keywords]
  have "map_sum id fst (calculate_ats no_synsets ascii_db
     (snd (get_synonyms no_synsets ascii_db empty_cache (ascii ''aws'')))
     resume_reworded jd_reworded) =
     Inr (66, 70, set (map ascii [''python'', ''sql'']), set (map ascii [''aws'']))"
    by (simp only: calculate_ats_example)
  with ok reworded_keywords show ?thesis
    by (simp only: simp_thms)
qed

lemma jd_50_keywords: "extract_keywords ascii_db jd_50 = set tokens_50"
  by (simp add: jd_50_def tokens_50_def text_defs)

lemma resume_29_keywords: "extract_keywords ascii_db resume_29 = set tokens_29"
  by (simp add: resume_29_def tokens_29_def text_defs)

lemma tokens_29_of_50: "filter (\<lambda>w. w \<in> set tokens_29) tokens_50 = tokens_29"
  by (simp add: tokens_29_def tokens_50_def ascii_def)

lemma tokens_cards: "card (set tokens_29) = 29" "card (set tokens_50) = 50" "set tokens_50 \<noteq> {}"
proof -
  have "distinct tokens_29" and "distinct tokens_50"
    by (simp_all add: tokens_29_def tokens_50_def ascii_def)
  then show "card (set tokens_29) = 29" and "card (set tokens_50) = 50"
    by (simp_all add: distinct_card) (simp_all add: tokens_29_def tokens_50_def)
  show "set tokens_50 \<noteq> {}"
    by (simp add: tokens_50_def)
qed

text \<open>
  C1 asks for \<open>ats = floor(100 * |matches| / |jd_kw|)\<close>. The source divides and multiplies
  in floating point before it truncates: with 29 of 50 keywords matched, \<open>29 / 50\<close> rounds
  to a float below 0.58, its product with 100 rounds to a float below 58, and the score
  is 57, while \<open>floor(100 * 29 / 50)\<close> is 58.
\<close>

theorem calculate_ats_29_of_50:
  "map_sum id (fst \<circ> fst) (calculate_ats no_synsets ascii_db empty_cache resume_29 jd_50) = Inr 57 \<and>
   card (extract_keywords ascii_db jd_50) = 50 \<and>
   card {w \<in> extract_keywords ascii_db jd_50. w \<in> extract_keywords ascii_db resume_29} = 29 \<and>
   (100 * 29) div 50 = (58::int)"
proof -
  have "map_sum id fst (map_sum id fst
      (calculate_ats no_synsets ascii_db empty_cache resume_29 jd_50)) = Inr 57"
    unfolding calculate_ats_outputs [OF empty_cache_ok] jd_50_keywords resume_29_keywords
      matches_no_synsets missing_no_synsets tokens_29_of_50 tokens_cards
    by (simp add: ats_score_29_of_50 tokens_50_def)
  then have "map_sum id (fst \<circ> fst)
      (calculate_ats no_synsets ascii_db empty_cache resume_29 jd_50) = Inr 57"
    by (simp add: sum.map_comp comp_def id_def)
  moreover have "{w \<in> set tokens_50. w \<in> set tokens_29} = set tokens_29"
    using tokens_29_of_50 by (metis set_filter)
  ultimately show ?thesis
    by (simp add: jd_50_keywords resume_29_keywords tokens_cards)
qed

section \<open>Properties of the highlighter\<close>

lemma keywords_loop_page:
  "fst (keywords_loop L U (page, out) kws) =
     fold (\<lambda>kw p. page_after (try_body L U p kw)) kws page"
proof (induction kws arbitrary: page out)
  case Nil
  show ?case
    by simp
next
  case (Cons kw rest)
  show ?case
  proof (cases "try_body L U page kw")
    case (Inl ep)
    obtain e page' where ep: "ep = (e, page')"
      by (cases ep)
    with Inl Cons.IH [of page'] show ?thesis
      by (simp add: page_after_def)
  next
    case (Inr page')
    with Cons.IH [of page'] show ?thesis
      by (simp add: page_after_def)
  qed
qed

lemma pages_loop_pages:
  "fst (pages_loop L U kws out pdf) =
     map (\<lambda>page. fold (\<lambda>kw p. page_after (try_body L U p kw)) kws page) pdf"
proof (induction pdf arbitrary: out)
  case Nil
  show ?case
    by simp
next
  case (Cons page rest)
  obtain page' out' where k: "keywords_loop L U (page, out) kws = (page', out')"
    by (cases "keywords_loop L U (page, out) kws")
  obtain rest' out'' where r: "pages_loop L U kws out' rest = (rest', out'')"
    by (cases "pages_loop L U kws out' rest")
  from k have "page' = fold (\<lambda>kw p. page_after (try_body L U p kw)) kws page"
    using keywords_loop_page [of L U page out kws] by simp
  moreover from r have
    "rest' = map (\<lambda>page. fold (\<lambda>kw p. page_after (try_body L U p kw)) kws page) rest"
    using Cons.IH [of out'] by simp
  ultimately show ?case
    using k r by simp
qed

lemma read_from_start:
  "read (seek file 0) = (content file, file\<lparr>pos := length (content file)\<rparr>)"
  by (simp add: read_def seek_def)

text \<open>
  C8: once the document is open, no exception of a lookup or of a mark leaves
  \<open>highlight_pdf_keywords\<close>. Whatever \<open>search_for\<close>, \<open>add_highlight_annot\<close> and
  \<open>get_text("words")\<close> raise, every page goes through the \<^verbatim>\<open>try\<close> block of every
  keyword in turn, each block starting from the page as the block before left it, raised
  or not; the function then returns what \<open>pdf.write()\<close> returns for these pages, the
  re-serialized bytes.
\<close>

theorem highlight_pdf_keywords_recovers:
  assumes "fitz_open L (content file) = Inr pdf"
  shows "fst (highlight_pdf_keywords L U file kws out) =
    pdf_write L
      (map (\<lambda>page. fold (\<lambda>kw p. page_after (try_body L U p kw)) kws page) pdf)"
proof -
  obtain pdf' out' where loop: "pages_loop L U kws out pdf = (pdf', out')"
    by (cases "pages_loop L U kws out pdf")
  then have "pdf' = map (\<lambda>page. fold (\<lambda>kw p. page_after (try_body L U p kw)) kws page) pdf"
    using pages_loop_pages [of L U kws out pdf] by simp
  with assms loop show ?thesis
    by (simp add: highlight_pdf_keywords_def read_from_start split: sum.splits)
qed

lemmas demo_defs = demo_lib_def demo_pages_def try_body_def page_after_def lower_def
  lower_char_def is_upper_az_def is_space_def ascii_def

lemma demo_try_sql:
  "try_body demo_lib ascii_db (hd demo_pages) (ascii ''sql'') =
     Inl (Exception (ascii ''lookup''), hd demo_pages)"
  by (simp add: demo_lib_def demo_pages_def try_body_def)

lemma demo_run:
  "pdf_write demo_lib
     (map (\<lambda>page. fold (\<lambda>kw p. page_after (try_body demo_lib ascii_db p kw))
        (map ascii [''python'', ''sql'', ''aws'']) page) demo_pages) = Inr [1, 2]"
  by (simp add: demo_defs)

theorem highlight_pdf_keywords_recovers_witness:
  "fitz_open demo_lib (content cv_pdf) = Inr demo_pages \<and>
   try_body demo_lib ascii_db (hd demo_pages) (ascii ''sql'') =
     Inl (Exception (ascii ''lookup''), hd demo_pages) \<and>
   fst (highlight_pdf_keywords demo_lib ascii_db cv_pdf
     (map ascii [''python'', ''sql'', ''aws'']) []) = Inr [1, 2]"
proof -
  have opened: "fitz_open demo_lib (content cv_pdf) = Inr demo_pages"
    by (simp add: demo_lib_def cv_pdf_def)
  from highlight_pdf_keywords_recovers [OF opened, of ascii_db "map ascii [''python'', ''sql'', ''aws'']" "[]"]
  have "fst (highlight_pdf_keywords demo_lib ascii_db cv_pdf
     (map ascii [''python'', ''sql'', ''aws'']) []) = Inr [1, 2]"
    by (simp only: demo_run)
  with opened demo_try_sql show ?thesis
    by (simp only: simp_thms)
qed

end
